theory Spec2Isabelle
  imports Main "HOL-Library.AList"
begin

section \<open>Values, objects and the heap\<close>

text \<open>
  JavaScript objects have identity and are mutated in place, so state objects live in an
  explicit heap: a list of objects, an address being an index into it. A value is a
  primitive or a reference to a heap object.
\<close>

type_synonym addr = nat

datatype prim = Undefined | Null | JBool bool | Num int | Str string

datatype val = Prim prim | Ref addr

text \<open>
  What \<open>Object.prototype.toString\<close> reports for an object: a plain \<open>[object Object]\<close>,
  a \<open>Map\<close>, a \<open>Set\<close>, or anything else (arrays, dates, objects with a \<open>toJSON\<close> method).
\<close>

datatype tag = ObjectTag | MapTag | SetTag | OtherTag

record obj =
  otag :: tag
  oisRef :: bool
  oisReactive :: bool
  props :: "(string \<times> val) list"
  mapEntries :: "(val \<times> val) list"
  setElems :: "val list"

type_synonym heap = "obj list"

text \<open>
  The argument of an object patch is a plain-data literal (\<open>_DeepPartial<T>\<close>). It is
  modelled as an immutable tree listing, for every object, its tag, whether it is a
  \<open>ref\<close>, whether it is \<open>reactive\<close>, its own enumerable properties in order, and its
  \<open>Map\<close> entries and \<open>Set\<close> elements. When such an object is assigned into the state it is
  placed in the heap at a fresh address.
\<close>

datatype pval =
    PPrim prim
  | PObj tag bool bool "(string \<times> pval) list" "(pval \<times> pval) list" "pval list"

definition getProp :: "heap \<Rightarrow> addr \<Rightarrow> string \<Rightarrow> val" where
  "getProp h a k = (case map_of (props (h ! a)) k of None \<Rightarrow> Prim Undefined | Some v \<Rightarrow> v)"

definition hasOwnProperty :: "heap \<Rightarrow> addr \<Rightarrow> string \<Rightarrow> bool" where
  "hasOwnProperty h a k = (k \<in> set (map fst (props (h ! a))))"

definition setProp :: "heap \<Rightarrow> addr \<Rightarrow> string \<Rightarrow> val \<Rightarrow> heap" where
  "setProp h a k v = h[a := (h ! a)\<lparr>props := AList.update k v (props (h ! a))\<rparr>]"

definition mapSet :: "heap \<Rightarrow> addr \<Rightarrow> val \<Rightarrow> val \<Rightarrow> heap" where
  "mapSet h a k v = h[a := (h ! a)\<lparr>mapEntries := AList.update k v (mapEntries (h ! a))\<rparr>]"

definition setAdd :: "heap \<Rightarrow> addr \<Rightarrow> val \<Rightarrow> heap" where
  "setAdd h a v =
     h[a := (h ! a)\<lparr>setElems := (if v \<in> set (setElems (h ! a)) then setElems (h ! a)
                                  else setElems (h ! a) @ [v])\<rparr>]"

text \<open>
  Modelled from the spec: \<open>isPlainObject\<close> is imported from \<open>./types\<close>, which is not among
  the sources. The spec calls its positive case a "plain data object"; here that is a heap
  object whose tag is \<open>ObjectTag\<close>. Primitives are never plain objects.
\<close>

definition isPlainObject :: "heap \<Rightarrow> val \<Rightarrow> bool" where
  "isPlainObject h v = (case v of Prim _ \<Rightarrow> False | Ref a \<Rightarrow> a < length h \<and> otag (h ! a) = ObjectTag)"

fun isPlainObjectP :: "pval \<Rightarrow> bool" where
  "isPlainObjectP (PPrim _) = False"
| "isPlainObjectP (PObj tg _ _ _ _ _) = (tg = ObjectTag)"

fun isRefP :: "pval \<Rightarrow> bool" where
  "isRefP (PPrim _) = False"
| "isRefP (PObj _ r _ _ _ _) = r"

fun isReactiveP :: "pval \<Rightarrow> bool" where
  "isReactiveP (PPrim _) = False"
| "isReactiveP (PObj _ _ re _ _ _) = re"

text \<open>Placing a patch value in the heap: primitives as they are, objects at fresh addresses.\<close>

function place :: "heap \<Rightarrow> pval \<Rightarrow> heap \<times> val"
  and placeProps :: "heap \<Rightarrow> (string \<times> pval) list \<Rightarrow> heap \<times> (string \<times> val) list"
  and placeEntries :: "heap \<Rightarrow> (pval \<times> pval) list \<Rightarrow> heap \<times> (val \<times> val) list"
  and placeElems :: "heap \<Rightarrow> pval list \<Rightarrow> heap \<times> val list" where
  "place h (PPrim p) = (h, Prim p)"
| "place h (PObj tg r re ps es xs) =
     (case placeProps h ps of (h1, ps') \<Rightarrow>
      case placeEntries h1 es of (h2, es') \<Rightarrow>
      case placeElems h2 xs of (h3, xs') \<Rightarrow>
        (h3 @ [\<lparr>otag = tg, oisRef = r, oisReactive = re, props = ps',
                 mapEntries = es', setElems = xs'\<rparr>], Ref (length h3)))"
| "placeProps h [] = (h, [])"
| "placeProps h ((k, p) # ps) =
     (case place h p of (h1, v) \<Rightarrow>
      case placeProps h1 ps of (h2, vs) \<Rightarrow> (h2, (k, v) # vs))"
| "placeEntries h [] = (h, [])"
| "placeEntries h ((pk, pv) # es) =
     (case place h pk of (h1, k) \<Rightarrow>
      case place h1 pv of (h2, v) \<Rightarrow>
      case placeEntries h2 es of (h3, vs) \<Rightarrow> (h3, (k, v) # vs))"
| "placeElems h [] = (h, [])"
| "placeElems h (p # xs) =
     (case place h p of (h1, v) \<Rightarrow>
      case placeElems h1 xs of (h2, vs) \<Rightarrow> (h2, v # vs))"
  by pat_completeness auto
termination
  by (relation "measure (\<lambda>x. case x of
         Inl (Inl (h, p)) \<Rightarrow> size p
       | Inl (Inr (h, ps)) \<Rightarrow> size_list (size_prod (\<lambda>_. 0) size) ps
       | Inr (Inl (h, es)) \<Rightarrow> size_list (size_prod size size) es
       | Inr (Inr (h, xs)) \<Rightarrow> size_list size xs)") auto

section \<open>The merge engine\<close>

text \<open>\<open>patchToApply.forEach((value, key) => target.set(key, value))\<close>\<close>

fun mapSetAll :: "heap \<Rightarrow> addr \<Rightarrow> (pval \<times> pval) list \<Rightarrow> heap" where
  "mapSetAll h t [] = h"
| "mapSetAll h t ((pk, pv) # es) =
     (case place h pk of (h1, k) \<Rightarrow>
      case place h1 pv of (h2, v) \<Rightarrow> mapSetAll (mapSet h2 t k v) t es)"

text \<open>\<open>patchToApply.forEach(target.add, target)\<close>\<close>

fun setAddAll :: "heap \<Rightarrow> addr \<Rightarrow> pval list \<Rightarrow> heap" where
  "setAddAll h t [] = h"
| "setAddAll h t (p # xs) =
     (case place h p of (h1, v) \<Rightarrow> setAddAll (setAdd h1 t v) t xs)"

text \<open>
  \<open>mergeReactiveObjects\<close>: the \<open>Map\<close> and \<open>Set\<close> branches, then the \<open>for \<dots> in\<close> loop over the
  patch's keys (\<open>mergeKeys\<close>). The tree lists own properties only, so the
  \<open>hasOwnProperty\<close> guard on the patch always passes. The function returns the heap after
  the mutations together with the reference it returns.
\<close>

function mergeReactiveObjects :: "heap \<Rightarrow> addr \<Rightarrow> pval \<Rightarrow> heap \<times> addr"
  and mergeKeys :: "heap \<Rightarrow> addr \<Rightarrow> (string \<times> pval) list \<Rightarrow> heap" where
  "mergeReactiveObjects h target (PPrim p) = (h, target)"
| "mergeReactiveObjects h target (PObj tg r re ps es xs) =
     (let h1 = (if otag (h ! target) = MapTag \<and> tg = MapTag then mapSetAll h target es else h);
          h2 = (if otag (h1 ! target) = SetTag \<and> tg = SetTag then setAddAll h1 target xs else h1)
      in (mergeKeys h2 target ps, target))"
| "mergeKeys h target [] = h"
| "mergeKeys h target ((key, subPatch) # rest) =
     (let targetValue = getProp h target key in
      if isPlainObject h targetValue \<and> isPlainObjectP subPatch \<and>
         hasOwnProperty h target key \<and> \<not> isRefP subPatch \<and> \<not> isReactiveP subPatch
      then (case targetValue of
              Ref tv \<Rightarrow>
                (case mergeReactiveObjects h tv subPatch of
                   (h', r) \<Rightarrow> mergeKeys (setProp h' target key (Ref r)) target rest)
            | Prim _ \<Rightarrow> mergeKeys h target rest)
      else (case place h subPatch of
              (h', v) \<Rightarrow> mergeKeys (setProp h' target key v) target rest))"
  by pat_completeness auto
termination
  by (relation "measure (\<lambda>x. case x of
         Inl (h, t, p) \<Rightarrow> size p
       | Inr (h, t, ps) \<Rightarrow> size_list (size_prod (\<lambda>_. 0) size) ps)") auto

section \<open>Subscription lists\<close>

text \<open>
  Callbacks are opaque to the store: a callback is named by a number, and calling it is
  recorded in the trace of the world. \<open>addSubscription\<close> pushes onto the list; the
  remover it returns deletes the first entry found by \<open>indexOf\<close>;
  \<open>triggerSubscriptions\<close> calls every entry of a copy of the list, in order.
\<close>

type_synonym callback = nat

definition addSubscription :: "callback list \<Rightarrow> callback \<Rightarrow> callback list" where
  "addSubscription subscriptions callback = subscriptions @ [callback]"

definition removeSubscription :: "callback list \<Rightarrow> callback \<Rightarrow> callback list" where
  "removeSubscription subscriptions callback = remove1 callback subscriptions"

definition triggerSubscriptions :: "callback list \<Rightarrow> (callback \<Rightarrow> 'e) \<Rightarrow> 'e list" where
  "triggerSubscriptions subscriptions call = map call subscriptions"

section \<open>Stores, registries and the world\<close>

datatype mutationType = direct | patchObject | patchFunction

record mutation =
  mtype :: mutationType
  storeId :: string
  payload :: "pval option"

datatype error =
    PiniaDestroyed
  | NoActivePinia
  | ResetNotImplemented string
  | CannotSetHotState
  | TypeError
  | ActionError nat

datatype 'a res = Returned 'a | Thrown error

datatype event =
    StateSubscriberCalled callback mutation val
  | ActionSubscriberCalled callback string "val list"
  | AfterCalled callback val
  | OnErrorCalled callback error
  | GetterNameWarned string string
  | AccessorReturned string string "nat option"

text \<open>
  The closure variables of one \<open>createSetupStore\<close> call, together with the fields of the
  store object that the claims read. \<open>sp\<close> is the store's registry (\<open>_p\<close>), \<open>stateInit\<close> the
  \<open>state\<close> option of an options store (\<open>None\<close> when it is absent; otherwise the fields
  of the plain object that \<open>state()\<close> builds), \<open>members\<close> the names assigned onto the store
  from the setup result.
\<close>

datatype member = StateMember | GetterMember | ActionMember | OtherMember

record store =
  sid :: string
  sp :: nat
  isListening :: bool
  isSyncListening :: bool
  subscriptions :: "callback list"
  actionSubscriptions :: "callback list"
  activeListener :: "nat option"
  hot :: bool
  isOptionsStore :: bool
  hotState :: addr
  stateInit :: "(string \<times> pval) list option"
  members :: "(string \<times> member) list"

text \<open>
  A registry (\<open>Pinia\<close>): \<open>state.value\<close> maps a store id to the address of its state
  object, \<open>_s\<close> maps a store id to the store (an index into the world's stores), \<open>_e\<close> is
  the effect scope, of which only \<open>active\<close> is read.
\<close>

record pinia =
  stateValue :: "(string \<times> addr) list"
  p_s :: "(string \<times> nat) list"
  p_e_active :: bool

text \<open>
  The world: the heap, the registries, the stores, the module variable \<open>activePinia\<close>,
  the supply of fresh \<open>Symbol()\<close>s, the callbacks queued by \<open>nextTick().then\<close> (store and
  token each), the trace of calls made to opaque callbacks and to \<open>console.warn\<close>, and the
  build flag \<open>__DEV__\<close>.
\<close>

record world =
  heap :: heap
  pinias :: "pinia list"
  stores :: "store list"
  activePinia :: "nat option"
  symbols :: nat
  microtasks :: "(nat \<times> nat) list"
  trace :: "event list"
  DEV :: bool

definition updStore :: "nat \<Rightarrow> (store \<Rightarrow> store) \<Rightarrow> world \<Rightarrow> world" where
  "updStore s f w = w\<lparr>stores := (stores w)[s := f (stores w ! s)]\<rparr>"

definition updPinia :: "nat \<Rightarrow> (pinia \<Rightarrow> pinia) \<Rightarrow> world \<Rightarrow> world" where
  "updPinia p f w = w\<lparr>pinias := (pinias w)[p := f (pinias w ! p)]\<rparr>"

text \<open>\<open>pinia.state.value[$id]\<close>, \<open>undefined\<close> when the registry has no slot for the id.\<close>

definition stateSlot :: "world \<Rightarrow> nat \<Rightarrow> val" where
  "stateSlot w s =
     (case map_of (stateValue (pinias w ! sp (stores w ! s))) (sid (stores w ! s)) of
        None \<Rightarrow> Prim Undefined
      | Some a \<Rightarrow> Ref a)"

text \<open>The getter of \<open>$state\<close>: \<open>__DEV__ && hot ? hotState.value : pinia.state.value[$id]\<close>.\<close>

definition getState :: "world \<Rightarrow> nat \<Rightarrow> val" where
  "getState w s =
     (if DEV w \<and> hot (stores w ! s) then Ref (hotState (stores w ! s)) else stateSlot w s)"

section \<open>\<open>$patch\<close>, \<open>$reset\<close> and the deferred re-enable\<close>

text \<open>
  A mutator is arbitrary code that receives the state object and writes through it: a
  function from that value and the heap to the new heap, or to an error when it throws.
\<close>

datatype patchArg =
    Mutator "val \<Rightarrow> heap \<Rightarrow> error option \<times> heap"
  | Partial pval

text \<open>
  \<open>mergeReactiveObjects(pinia.state.value[$id], partialStateOrMutator)\<close> where the slot may
  be \<open>undefined\<close>: the loop body then fails at \<open>target[key]\<close> as soon as the patch has a key.
\<close>

fun patchKeys :: "pval \<Rightarrow> string list" where
  "patchKeys (PPrim _) = []"
| "patchKeys (PObj _ _ _ ps _ _) = map fst ps"

definition mergeInto :: "heap \<Rightarrow> val \<Rightarrow> pval \<Rightarrow> error option \<times> heap" where
  "mergeInto h target p =
     (case target of
        Ref a \<Rightarrow> (None, fst (mergeReactiveObjects h a p))
      | Prim _ \<Rightarrow> (if patchKeys p = [] then (None, h) else (Some TypeError, h)))"

definition patch :: "nat \<Rightarrow> patchArg \<Rightarrow> world \<Rightarrow> unit res \<times> world" where
  "patch s partialStateOrMutator w =
     (let w1 = updStore s (\<lambda>st. st\<lparr>isListening := False, isSyncListening := False\<rparr>) w;
          (thrown, h', subscriptionMutation) =
            (case partialStateOrMutator of
               Mutator f \<Rightarrow>
                 (case f (stateSlot w1 s) (heap w1) of
                    (e, h') \<Rightarrow> (e, h', \<lparr>mtype = patchFunction, storeId = sid (stores w1 ! s),
                                         payload = None\<rparr>))
             | Partial p \<Rightarrow>
                 (case mergeInto (heap w1) (stateSlot w1 s) p of
                    (e, h') \<Rightarrow> (e, h', \<lparr>mtype = patchObject, storeId = sid (stores w1 ! s),
                                         payload = Some p\<rparr>)));
          w2 = w1\<lparr>heap := h'\<rparr>
      in case thrown of
           Some e \<Rightarrow> (Thrown e, w2)
         | None \<Rightarrow>
             (let myListenerId = symbols w2;
                  w3 = updStore s (\<lambda>st. st\<lparr>activeListener := Some myListenerId\<rparr>)
                         (w2\<lparr>symbols := Suc (symbols w2)\<rparr>);
                  w4 = w3\<lparr>microtasks := microtasks w3 @ [(s, myListenerId)]\<rparr>;
                  w5 = updStore s (\<lambda>st. st\<lparr>isSyncListening := True\<rparr>) w4
              in (Returned (),
                  w5\<lparr>trace := trace w5 @
                       triggerSubscriptions (subscriptions (stores w5 ! s))
                         (\<lambda>callback. StateSubscriberCalled callback subscriptionMutation
                                        (stateSlot w5 s))\<rparr>)))"

text \<open>
  The callback given to \<open>nextTick().then\<close> by the patch of store \<open>s\<close> that drew the token:
  \<open>if (activeListener === myListenerId) isListening = true\<close>.
\<close>

definition reEnable :: "nat \<times> nat \<Rightarrow> world \<Rightarrow> world" where
  "reEnable cb w =
     (case cb of (s, myListenerId) \<Rightarrow>
        if activeListener (stores w ! s) = Some myListenerId
        then updStore s (\<lambda>st. st\<lparr>isListening := True\<rparr>) w else w)"




text \<open>\<open>$subscribe(callback)\<close>, as far as the subscription list goes.\<close>

definition subscribe :: "nat \<Rightarrow> callback \<Rightarrow> world \<Rightarrow> world" where
  "subscribe s callback w =
     updStore s (\<lambda>st. st\<lparr>subscriptions := addSubscription (subscriptions st) callback\<rparr>) w"

section \<open>Building a store\<close>

text \<open>
  What a setup function returns, property by property, as \<open>createSetupStore\<close> classifies
  it: a ref that is not computed is state (its current value, and whether it was marked
  with \<open>skipHydrate\<close>), a computed ref is a getter, a function is an action. A ref held in
  a reactive object is read and written through its value, so a state slot is modelled as
  holding the value. Setup results that are \<open>reactive\<close> objects, plugins, devtools and
  hot-update bookkeeping are outside the model.
\<close>

datatype sprop = StateProp val bool | GetterProp | ActionProp | OtherProp

fun memberOf :: "sprop \<Rightarrow> member" where
  "memberOf (StateProp _ _) = StateMember"
| "memberOf GetterProp = GetterMember"
| "memberOf ActionProp = ActionMember"
| "memberOf OtherProp = OtherMember"

text \<open>A fresh object \<open>{}\<close> or \<open>ref({})\<close> in the heap.\<close>

definition emptyObject :: obj where
  "emptyObject = \<lparr>otag = ObjectTag, oisRef = False, oisReactive = True, props = [],
                   mapEntries = [], setElems = []\<rparr>"

text \<open>\<open>state ? state() : {}\<close>: the plain object that the state initialiser builds.\<close>

definition callState :: "heap \<Rightarrow> (string \<times> pval) list option \<Rightarrow> heap \<times> addr" where
  "callState h state =
     (case placeProps h (case state of Some fs \<Rightarrow> fs | None \<Rightarrow> []) of
        (h1, ps) \<Rightarrow> (h1 @ [emptyObject\<lparr>props := ps\<rparr>], length h1))"

text \<open>
  The loop of \<open>createSetupStore\<close> over the setup result, for one property of store \<open>s\<close>:
  under \<open>__DEV__ && hot\<close> state goes to \<open>hotState.value\<close>; otherwise, for a setup store, the
  value is taken from the initial state when there is one and the property is to be
  hydrated, and is stored in \<open>pinia.state.value[$id]\<close>. Actions and getters leave the
  state alone.
\<close>

definition classify :: "nat \<Rightarrow> addr option \<Rightarrow> string \<times> sprop \<Rightarrow> world \<Rightarrow> world" where
  "classify s initialState kp w =
     (case kp of
        (key, StateProp v skip) \<Rightarrow>
          (if DEV w \<and> hot (stores w ! s)
           then w\<lparr>heap := setProp (heap w) (hotState (stores w ! s)) key v\<rparr>
           else if \<not> isOptionsStore (stores w ! s)
           then (case stateSlot w s of
                   Ref slot \<Rightarrow>
                     w\<lparr>heap := setProp (heap w) slot key
                          (case initialState of
                             Some a0 \<Rightarrow> if \<not> skip then getProp (heap w) a0 key else v
                           | None \<Rightarrow> v)\<rparr>
                 | Prim _ \<Rightarrow> w)
           else w)
      | (key, _) \<Rightarrow> w)"

text \<open>
  The part of \<open>createSetupStore\<close> that runs before the setup function: the state slot of a
  setup store is initialised to \<open>{}\<close> when the registry has none, \<open>hotState\<close> is
  allocated, the partial store (\<open>$id\<close>, \<open>$patch\<close>, \<open>$reset\<close>, \<open>$dispose\<close>, \<open>$subscribe\<close>,
  \<open>$onAction\<close> over empty subscription lists) is created, and \<open>pinia._s.set($id, store)\<close>
  registers it.
\<close>

definition registerPartialStore ::
  "string \<Rightarrow> (string \<times> pval) list option \<Rightarrow> nat \<Rightarrow> bool \<Rightarrow> bool \<Rightarrow> world \<Rightarrow> world" where
  "registerPartialStore id' state p isHot isOptions w =
     (let initialState = map_of (stateValue (pinias w ! p)) id';
          w1 = (if \<not> isOptions \<and> initialState = None \<and> (\<not> DEV w \<or> \<not> isHot)
                then updPinia p
                       (\<lambda>pi. pi\<lparr>stateValue :=
                                  AList.update id' (length (heap w)) (stateValue pi)\<rparr>)
                       (w\<lparr>heap := heap w @ [emptyObject]\<rparr>)
                else w);
          w2 = w1\<lparr>heap := heap w1 @ [emptyObject]\<rparr>;
          w3 = w2\<lparr>stores := stores w2 @
                 [\<lparr>sid = id', sp = p, isListening = False, isSyncListening = False,
                   subscriptions = [], actionSubscriptions = [], activeListener = None,
                   hot = isHot, isOptionsStore = isOptions, hotState = length (heap w1),
                   stateInit = state, members = []\<rparr>]\<rparr>
      in updPinia p (\<lambda>pi. pi\<lparr>p_s := AList.update id' (length (stores w2)) (p_s pi)\<rparr>) w3)"

text \<open>
  \<open>createSetupStore($id, setup, options, pinia, hot, isOptionsStore)\<close>. The setup function
  is a parameter: it runs on the world in which the partial store is already registered
  in \<open>pinia._s\<close>, and yields \<open>None\<close> only when a nested accessor call ran out of fuel.
  The new store is the one at index \<open>length (stores w)\<close>.
\<close>

definition createSetupStore ::
  "string \<Rightarrow> (world \<Rightarrow> ((string \<times> sprop) list res \<times> world) option) \<Rightarrow>
   (string \<times> pval) list option \<Rightarrow> (val \<Rightarrow> val \<Rightarrow> heap \<Rightarrow> heap) option \<Rightarrow>
   nat \<Rightarrow> bool \<Rightarrow> bool \<Rightarrow> world \<Rightarrow> (nat res \<times> world) option" where
  "createSetupStore id' setup state hydrate p isHot isOptions w =
     (if DEV w \<and> \<not> p_e_active (pinias w ! p) then Some (Thrown PiniaDestroyed, w)
      else
        let initialState = map_of (stateValue (pinias w ! p)) id';
            s = length (stores w)
        in case setup (registerPartialStore id' state p isHot isOptions w) of
             None \<Rightarrow> None
           | Some (Thrown e, w5) \<Rightarrow> Some (Thrown e, w5)
           | Some (Returned setupStore, w5) \<Rightarrow>
               (let w6 = fold (classify s initialState) setupStore w5;
                    w7 = updStore s
                           (\<lambda>st. st\<lparr>members := map (\<lambda>(k, pr). (k, memberOf pr)) setupStore\<rparr>)
                           w6;
                    w8 = (case (initialState, hydrate) of
                            (Some a0, Some hy) \<Rightarrow>
                              if isOptions
                              then w7\<lparr>heap := hy (getState w7 s) (Ref a0) (heap w7)\<rparr>
                              else w7
                          | _ \<Rightarrow> w7)
                in Some (Returned s,
                         updStore s (\<lambda>st. st\<lparr>isListening := True, isSyncListening := True\<rparr>)
                           w8)))"

text \<open>
  The \<open>setup\<close> function that \<open>createOptionsStore\<close> builds: it installs \<open>state()\<close> in the
  registry unless there is an initial state (or the store is hot under \<open>__DEV__\<close>), takes
  one ref per field of the state (\<open>toRefs\<close>), and assigns the actions and then the
  computed getters over them; under \<open>__DEV__\<close> a getter whose name is a key of the local
  state is reported with \<open>console.warn\<close>.
\<close>

definition optionsSetup ::
  "string \<Rightarrow> (string \<times> pval) list option \<Rightarrow> string list \<Rightarrow> string list \<Rightarrow>
   nat \<Rightarrow> bool \<Rightarrow> addr option \<Rightarrow> world \<Rightarrow> ((string \<times> sprop) list res \<times> world) option" where
  "optionsSetup id' state getters actions p isHot initialState w =
     (let w1 = (if initialState = None \<and> (\<not> DEV w \<or> \<not> isHot)
                then (case callState (heap w) state of
                        (h1, a) \<Rightarrow>
                          updPinia p
                            (\<lambda>pi. pi\<lparr>stateValue := AList.update id' a (stateValue pi)\<rparr>)
                            (w\<lparr>heap := h1\<rparr>))
                else w);
          (w2, source) =
            (if DEV w1 \<and> isHot
             then (case callState (heap w1) state of (h2, a) \<Rightarrow> (w1\<lparr>heap := h2\<rparr>, Some a))
             else (w1, map_of (stateValue (pinias w1 ! p)) id'));
          localState =
            (case source of
               Some a \<Rightarrow> map (\<lambda>(k, v). (k, StateProp v False)) (props (heap w2 ! a))
             | None \<Rightarrow> []);
          withActions = fold (\<lambda>name. AList.update name ActionProp) actions localState;
          warnings = map (\<lambda>name. GetterNameWarned name id')
                       (filter (\<lambda>name. DEV w2 \<and> name \<in> set (map fst localState)) getters);
          withGetters = fold (\<lambda>name. AList.update name GetterProp) getters withActions
      in Some (Returned withGetters, w2\<lparr>trace := trace w2 @ warnings\<rparr>))"

definition createOptionsStore ::
  "string \<Rightarrow> (string \<times> pval) list option \<Rightarrow> string list \<Rightarrow> string list \<Rightarrow>
   (val \<Rightarrow> val \<Rightarrow> heap \<Rightarrow> heap) option \<Rightarrow> nat \<Rightarrow> bool \<Rightarrow> world \<Rightarrow> (nat res \<times> world) option" where
  "createOptionsStore id' state getters actions hydrate p isHot w =
     createSetupStore id'
       (optionsSetup id' state getters actions p isHot
          (map_of (stateValue (pinias w ! p)) id'))
       state hydrate p isHot True w"

section \<open>Declarations and accessors\<close>

text \<open>
  A setup function is user code. The model lets it call the accessors of other stores,
  by store id and in a given order, and then return an object built from refs (with the
  value given to \<open>ref\<close> and the \<open>skipHydrate\<close> mark), computed values and functions. Each
  accessor result is recorded in the trace.
\<close>

datatype setupValue = SRef pval bool | SComputed | SFunction | SOther

record setupScript =
  accessorCalls :: "string list"
  returned :: "(string \<times> setupValue) list"

datatype decl =
    OptionsDecl "(string \<times> pval) list option" "string list" "string list"
      "(val \<Rightarrow> val \<Rightarrow> heap \<Rightarrow> heap) option"
  | SetupDecl setupScript

type_synonym decls = "(string \<times> decl) list"

fun buildReturns :: "heap \<Rightarrow> (string \<times> setupValue) list \<Rightarrow> heap \<times> (string \<times> sprop) list" where
  "buildReturns h [] = (h, [])"
| "buildReturns h ((k, SRef v skip) # rest) =
     (case place h v of (h1, x) \<Rightarrow>
      case buildReturns h1 rest of (h2, ps) \<Rightarrow> (h2, (k, StateProp x skip) # ps))"
| "buildReturns h ((k, SComputed) # rest) =
     (case buildReturns h rest of (h2, ps) \<Rightarrow> (h2, (k, GetterProp) # ps))"
| "buildReturns h ((k, SFunction) # rest) =
     (case buildReturns h rest of (h2, ps) \<Rightarrow> (h2, (k, ActionProp) # ps))"
| "buildReturns h ((k, SOther) # rest) =
     (case buildReturns h rest of (h2, ps) \<Rightarrow> (h2, (k, OtherProp) # ps))"

fun runCalls ::
  "(string \<times> decl \<Rightarrow> nat option \<Rightarrow> world \<Rightarrow> (nat option res \<times> world) option) \<Rightarrow>
   decls \<Rightarrow> string \<Rightarrow> string list \<Rightarrow> world \<Rightarrow> (unit res \<times> world) option" where
  "runCalls use ds me [] w = Some (Returned (), w)"
| "runCalls use ds me (c # cs) w =
     (case map_of ds c of
        None \<Rightarrow> Some (Thrown TypeError, w)
      | Some d \<Rightarrow>
          (case use (c, d) None w of
             None \<Rightarrow> None
           | Some (Thrown e, w') \<Rightarrow> Some (Thrown e, w')
           | Some (Returned r, w') \<Rightarrow>
               runCalls use ds me cs (w'\<lparr>trace := trace w' @ [AccessorReturned me c r]\<rparr>)))"

definition runSetup ::
  "(string \<times> decl \<Rightarrow> nat option \<Rightarrow> world \<Rightarrow> (nat option res \<times> world) option) \<Rightarrow>
   decls \<Rightarrow> string \<Rightarrow> setupScript \<Rightarrow> world \<Rightarrow> ((string \<times> sprop) list res \<times> world) option" where
  "runSetup use ds me sc w =
     (case runCalls use ds me (accessorCalls sc) w of
        None \<Rightarrow> None
      | Some (Thrown e, w') \<Rightarrow> Some (Thrown e, w')
      | Some (Returned _, w') \<Rightarrow>
          (case buildReturns (heap w') (returned sc) of
             (h, ps) \<Rightarrow>
               Some (Returned (fold (\<lambda>(k, pr). AList.update k pr) ps []), w'\<lparr>heap := h\<rparr>)))"

text \<open>
  \<open>useStore(pinia)\<close> of the accessor that \<open>defineStore\<close> returns for a declaration, called
  without the \<open>hot\<close> argument. \<open>injected\<close> is what \<open>currentInstance && inject(piniaSymbol, null)\<close>
  yields, \<open>__TEST__\<close> is false. The first argument bounds the nesting of accessor calls
  made from setup functions; \<open>None\<close> means that the bound was reached.
\<close>

primrec useStore ::
  "nat \<Rightarrow> decls \<Rightarrow> nat option \<Rightarrow> string \<times> decl \<Rightarrow> nat option \<Rightarrow> world \<Rightarrow>
   (nat option res \<times> world) option" where
  "useStore 0 ds injected acc parg w = None"
| "useStore (Suc n) ds injected acc parg w =
     (let w1 = (case (case parg of Some p \<Rightarrow> Some p | None \<Rightarrow> injected) of
                  Some p \<Rightarrow> w\<lparr>activePinia := Some p\<rparr>
                | None \<Rightarrow> w)
      in case activePinia w1 of
           None \<Rightarrow> Some (Thrown (if DEV w1 then NoActivePinia else TypeError), w1)
         | Some p \<Rightarrow>
             (if fst acc \<notin> set (map fst (p_s (pinias w1 ! p)))
              then (case (case snd acc of
                            SetupDecl sc \<Rightarrow>
                              createSetupStore (fst acc)
                                (runSetup (useStore n ds injected) ds (fst acc) sc)
                                None None p False False w1
                          | OptionsDecl state getters actions hydrate \<Rightarrow>
                              createOptionsStore (fst acc) state getters actions hydrate
                                p False w1) of
                      None \<Rightarrow> None
                    | Some (Thrown e, w2) \<Rightarrow> Some (Thrown e, w2)
                    | Some (Returned _, w2) \<Rightarrow>
                        Some (Returned (map_of (p_s (pinias w2 ! p)) (fst acc)), w2))
              else Some (Returned (map_of (p_s (pinias w1 ! p)) (fst acc)), w1)))"

section \<open>Wrapped actions\<close>

text \<open>
  An action is user code: from the arguments and the world it returns a value, throws, or
  returns a promise. A subscriber of \<open>$onAction\<close> is an opaque callback; \<open>hooks\<close> tells which
  callbacks it hands to \<open>after\<close> and to \<open>onError\<close> when it is called.
\<close>

datatype actionOutcome = ReturnsValue val | ThrowsError error | ReturnsPromise nat


record invocation =
  afterCallbackList :: "callback list"
  onErrorCallbackList :: "callback list"

datatype wrapped = WValue val | WThrown error | WPromise nat invocation

definition wrapAction ::
  "(callback \<Rightarrow> callback list \<times> callback list) \<Rightarrow> nat \<Rightarrow> string \<Rightarrow>
   (val list \<Rightarrow> world \<Rightarrow> actionOutcome \<times> world) \<Rightarrow> val list \<Rightarrow> world \<Rightarrow> wrapped \<times> world" where
  "wrapAction hooks s name action args w =
     (let w1 = w\<lparr>activePinia := Some (sp (stores w ! s))\<rparr>;
          subs = actionSubscriptions (stores w1 ! s);
          ctx = \<lparr>afterCallbackList = concat (map (\<lambda>cb. fst (hooks cb)) subs),
                 onErrorCallbackList = concat (map (\<lambda>cb. snd (hooks cb)) subs)\<rparr>;
          w2 = w1\<lparr>trace := trace w1 @
                 triggerSubscriptions subs (\<lambda>cb. ActionSubscriberCalled cb name args)\<rparr>
      in case action args w2 of
           (ThrowsError e, w3) \<Rightarrow>
             (WThrown e,
              w3\<lparr>trace := trace w3 @
                   triggerSubscriptions (onErrorCallbackList ctx) (\<lambda>cb. OnErrorCalled cb e)\<rparr>)
         | (ReturnsPromise pr, w3) \<Rightarrow> (WPromise pr ctx, w3)
         | (ReturnsValue v, w3) \<Rightarrow>
             (WValue v,
              w3\<lparr>trace := trace w3 @
                   triggerSubscriptions (afterCallbackList ctx) (\<lambda>cb. AfterCalled cb v)\<rparr>))"


text \<open>\<open>$onAction(callback)\<close>, as far as the subscription list goes.\<close>

definition onAction :: "nat \<Rightarrow> callback \<Rightarrow> world \<Rightarrow> world" where
  "onAction s callback w =
     updStore s
       (\<lambda>st. st\<lparr>actionSubscriptions := addSubscription (actionSubscriptions st) callback\<rparr>) w"

section \<open>Notions used to state the properties\<close>

text \<open>
  What the mutation step of \<open>$patch\<close> yields (whether it threw, and the heap after it), and
  the mutation record handed to the subscribers, for either form of the argument.
\<close>

definition patchOutcome :: "nat \<Rightarrow> patchArg \<Rightarrow> world \<Rightarrow> error option \<times> heap" where
  "patchOutcome s arg w =
     (case arg of
        Mutator f \<Rightarrow> f (stateSlot w s) (heap w)
      | Partial p \<Rightarrow> mergeInto (heap w) (stateSlot w s) p)"

definition subscriptionMutation :: "string \<Rightarrow> patchArg \<Rightarrow> mutation" where
  "subscriptionMutation i arg =
     (case arg of
        Mutator f \<Rightarrow> \<lparr>mtype = patchFunction, storeId = i, payload = None\<rparr>
      | Partial p \<Rightarrow> \<lparr>mtype = patchObject, storeId = i, payload = Some p\<rparr>)"


subsection \<open>The heap as a graph\<close>

text \<open>
  \<open>edge h a b\<close>: object \<open>a\<close> of the heap holds a reference to \<open>b\<close> in one of its
  properties. A target is cyclic when it reaches itself along such edges, and has no
  dangling reference when every reference in its properties is an address of the heap.
\<close>

definition edge :: "heap \<Rightarrow> addr \<Rightarrow> addr \<Rightarrow> bool" where
  "edge h a b = (a < length h \<and> (\<exists>k. (k, Ref b) \<in> set (props (h ! a))))"


text \<open>
  How a heap may change under a merge: it only gets longer, every object keeps its tag,
  its \<open>ref\<close> and \<open>reactive\<close> marks and its keys, the objects added refer to added objects
  only (\<open>closedAbove\<close>), and no reference from an old object to an old object is new.
\<close>

definition closedAbove :: "nat \<Rightarrow> heap \<Rightarrow> bool" where
  "closedAbove n h = (\<forall>a b. edge h a b \<and> n \<le> a \<longrightarrow> n \<le> b)"

definition grows :: "heap \<Rightarrow> heap \<Rightarrow> bool" where
  "grows h h' =
     (length h \<le> length h' \<and>
      (\<forall>a < length h. otag (h' ! a) = otag (h ! a) \<and> oisRef (h' ! a) = oisRef (h ! a) \<and>
          oisReactive (h' ! a) = oisReactive (h ! a) \<and>
          fst ` set (props (h ! a)) \<subseteq> fst ` set (props (h' ! a))) \<and>
      closedAbove (length h) h' \<and>
      (\<forall>a b. edge h' a b \<and> a < length h \<and> b < length h \<longrightarrow> edge h a b))"

text \<open>The objects outside a set of addresses are untouched.\<close>

definition unchangedOutside :: "heap \<Rightarrow> heap \<Rightarrow> addr set \<Rightarrow> bool" where
  "unchangedOutside h h' S = (\<forall>a < length h. a \<notin> S \<longrightarrow> h' ! a = h ! a)"


subsection \<open>The key loop, one key at a time\<close>

text \<open>
  The condition under which the loop recurses into \<open>target[key]\<close>, the heap on which the
  loop starts (after the \<open>Map\<close> and \<open>Set\<close> branches), the heap after the iteration for one
  key, and the value that the iteration stores under the key.
\<close>

definition recurses :: "heap \<Rightarrow> addr \<Rightarrow> string \<Rightarrow> pval \<Rightarrow> bool" where
  "recurses h target key subPatch =
     (isPlainObject h (getProp h target key) \<and> isPlainObjectP subPatch \<and>
      hasOwnProperty h target key \<and> \<not> isRefP subPatch \<and> \<not> isReactiveP subPatch)"

definition afterCollections :: "heap \<Rightarrow> addr \<Rightarrow> pval \<Rightarrow> heap" where
  "afterCollections h t p =
     (case p of
        PPrim _ \<Rightarrow> h
      | PObj tg r re ps es xs \<Rightarrow>
          (let h1 = (if otag (h ! t) = MapTag \<and> tg = MapTag then mapSetAll h t es else h)
           in if otag (h1 ! t) = SetTag \<and> tg = SetTag then setAddAll h1 t xs else h1))"

definition stepKey :: "heap \<Rightarrow> addr \<Rightarrow> string \<Rightarrow> pval \<Rightarrow> heap" where
  "stepKey h t key sub =
     (if recurses h t key sub
      then (case getProp h t key of
              Ref tv \<Rightarrow> setProp (fst (mergeReactiveObjects h tv sub)) t key (Ref tv)
            | Prim _ \<Rightarrow> h)
      else setProp (fst (place h sub)) t key (snd (place h sub)))"

definition stepValue :: "heap \<Rightarrow> addr \<Rightarrow> string \<Rightarrow> pval \<Rightarrow> val" where
  "stepValue h t key sub =
     (if recurses h t key sub then getProp h t key else snd (place h sub))"




subsection \<open>Example states\<close>








subsection \<open>A running example: the counter store of the demo application\<close>

text \<open>
  \<open>defineStore('store', { state: () => ({ count: 1 }), getters: { square }, actions:
  { increment } })\<close>, a development-mode world with one registry and no store, and the
  world after the accessor has built the store and two state subscribers \<open>0\<close> and \<open>1\<close>
  have been added.
\<close>

definition counterDecl :: decl where
  "counterDecl = OptionsDecl (Some [(''count'', PPrim (Num 1))]) [''square''] [''increment''] None"

definition emptyWorld :: world where
  "emptyWorld =
     \<lparr>heap = [], pinias = [\<lparr>stateValue = [], p_s = [], p_e_active = True\<rparr>], stores = [],
      activePinia = None, symbols = 0, microtasks = [], trace = [], DEV = True\<rparr>"

definition counterInit :: pval where
  "counterInit = PObj ObjectTag False False [(''count'', PPrim (Num 1))] [] []"

definition counterHeap :: heap where
  "counterHeap =
     [emptyObject,
      \<lparr>otag = ObjectTag, oisRef = False, oisReactive = True,
        props = [(''count'', Prim (Num 1))], mapEntries = [], setElems = []\<rparr>]"

definition counterStore :: store where
  "counterStore =
     \<lparr>sid = ''store'', sp = 0, isListening = True, isSyncListening = True,
      subscriptions = [0, 1], actionSubscriptions = [], activeListener = None,
      hot = False, isOptionsStore = True, hotState = 0,
      stateInit = Some [(''count'', PPrim (Num 1))],
      members = [(''count'', StateMember), (''increment'', ActionMember),
                 (''square'', GetterMember)]\<rparr>"

definition counterWorld :: world where
  "counterWorld =
     \<lparr>heap = counterHeap,
      pinias = [\<lparr>stateValue = [(''store'', 1)], p_s = [(''store'', 0)], p_e_active = True\<rparr>],
      stores = [counterStore], activePinia = Some 0, symbols = 0, microtasks = [],
      trace = [], DEV = True\<rparr>"

text \<open>
  The same declaration built for hot replacement under \<open>__DEV__\<close>, as \<open>useStore\<close> does
  under the id \<open>'__hot:' + id\<close>; a production world; a setup store
  \<open>defineStore('counter', () => ({ count: ref(0), increment }))\<close> built in it; and an
  options declaration whose getter \<open>count\<close> has the name of a state field.
\<close>

definition hotCounterWorld :: world where
  "hotCounterWorld =
     (case createOptionsStore ''__hot:store'' (Some [(''count'', PPrim (Num 1))])
             [''square''] [''increment''] None 0 True emptyWorld of
        Some (r, w) \<Rightarrow> w
      | None \<Rightarrow> emptyWorld)"








definition actionWorld :: world where
  "actionWorld = onAction 0 5 counterWorld"

definition exampleHooks :: "callback \<Rightarrow> callback list \<times> callback list" where
  "exampleHooks cb = (if cb = 5 then ([10], [11]) else ([], []))"

definition returningAction :: "val list \<Rightarrow> world \<Rightarrow> actionOutcome \<times> world" where
  "returningAction args w = (ReturnsValue (Prim Undefined), w)"



subsection \<open>The invocation of a wrapped action\<close>

text \<open>
  The world in which the body of a wrapped action runs (the registry is active and the
  action subscribers have been called), and the hooks that these subscribers handed to
  \<open>after\<close> and \<open>onError\<close> during the call.
\<close>

definition announced :: "nat \<Rightarrow> string \<Rightarrow> val list \<Rightarrow> world \<Rightarrow> world" where
  "announced s name args w =
     w\<lparr>activePinia := Some (sp (stores w ! s)),
       trace := trace w @
         map (\<lambda>cb. ActionSubscriberCalled cb name args) (actionSubscriptions (stores w ! s))\<rparr>"

definition invocationOf :: "(callback \<Rightarrow> callback list \<times> callback list) \<Rightarrow> nat \<Rightarrow> world \<Rightarrow> invocation" where
  "invocationOf hooks s w =
     \<lparr>afterCallbackList = concat (map (\<lambda>cb. fst (hooks cb)) (actionSubscriptions (stores w ! s))),
      onErrorCallbackList = concat (map (\<lambda>cb. snd (hooks cb)) (actionSubscriptions (stores w ! s)))\<rparr>"

subsection \<open>Registries and the stores registered in them\<close>

text \<open>
  A world is well formed for the accessors when every entry of an id-to-instance map
  \<open>pinia._s\<close> points to a store of the world that carries this id and belongs to this
  registry, and when the active registry and the injected one, if any, are registries
  of the world.
\<close>

definition wfRegistry :: "world \<Rightarrow> bool" where
  "wfRegistry w =
     (\<forall>p < length (pinias w). \<forall>i s. map_of (p_s (pinias w ! p)) i = Some s \<longrightarrow>
        s < length (stores w) \<and> sp (stores w ! s) = p \<and> sid (stores w ! s) = i)"

definition validActive :: "world \<Rightarrow> bool" where
  "validActive w = (case activePinia w of None \<Rightarrow> True | Some p \<Rightarrow> p < length (pinias w))"

definition wfWorld :: "nat option \<Rightarrow> world \<Rightarrow> bool" where
  "wfWorld injected w =
     (wfRegistry w \<and> validActive w \<and>
      (case injected of Some q \<Rightarrow> q < length (pinias w) | None \<Rightarrow> True))"

text \<open>
  \<open>extends w w'\<close>: the world \<open>w'\<close> has the registries of \<open>w\<close>, its stores (with their ids
  and registries) and possibly more, and every registration of \<open>w\<close>.
  \<open>sameRegistry w w'\<close>: nothing was registered or built between \<open>w\<close> and \<open>w'\<close>.
\<close>

definition extends :: "world \<Rightarrow> world \<Rightarrow> bool" where
  "extends w w' =
     (length (pinias w') = length (pinias w) \<and> length (stores w) \<le> length (stores w') \<and>
      (\<forall>s < length (stores w). sp (stores w' ! s) = sp (stores w ! s) \<and>
                                sid (stores w' ! s) = sid (stores w ! s)) \<and>
      (\<forall>p < length (pinias w). \<forall>i s. map_of (p_s (pinias w ! p)) i = Some s \<longrightarrow>
                                       map_of (p_s (pinias w' ! p)) i = Some s))"

definition sameRegistry :: "world \<Rightarrow> world \<Rightarrow> bool" where
  "sameRegistry w w' =
     (map p_s (pinias w') = map p_s (pinias w) \<and>
      map (\<lambda>st. (sp st, sid st)) (stores w') = map (\<lambda>st. (sp st, sid st)) (stores w))"

text \<open>
  The registry that an accessor call resolves: the argument, else the injected
  registry, else the active one; the world after \<open>setActivePinia\<close>; and the store
  that the accessor builds in registry \<open>p\<close> when the id is not registered there.
\<close>

definition resolve :: "nat option \<Rightarrow> nat option \<Rightarrow> world \<Rightarrow> nat option" where
  "resolve parg injected w =
     (case parg of Some p \<Rightarrow> Some p
      | None \<Rightarrow> (case injected of Some p \<Rightarrow> Some p | None \<Rightarrow> activePinia w))"

definition activated :: "nat option \<Rightarrow> nat option \<Rightarrow> world \<Rightarrow> world" where
  "activated parg injected w =
     (case (case parg of Some p \<Rightarrow> Some p | None \<Rightarrow> injected) of
        Some p \<Rightarrow> w\<lparr>activePinia := Some p\<rparr>
      | None \<Rightarrow> w)"

definition build ::
  "nat \<Rightarrow> decls \<Rightarrow> nat option \<Rightarrow> string \<times> decl \<Rightarrow> nat \<Rightarrow> world \<Rightarrow>
   (nat res \<times> world) option" where
  "build n ds injected acc p w =
     (case snd acc of
        SetupDecl sc \<Rightarrow>
          createSetupStore (fst acc) (runSetup (useStore n ds injected) ds (fst acc) sc)
            None None p False False w
      | OptionsDecl state getters actions hydrate \<Rightarrow>
          createOptionsStore (fst acc) state getters actions hydrate p False w)"

text \<open>
  The number of pairs of a registry and an id, among the given ids, under which no store
  is registered. Every construction registers one more, so that this number bounds the
  nesting of accessor calls; \<open>pending\<close> counts them for the id of an accessor and the
  ids of the declarations.
\<close>

definition unregistered :: "string list \<Rightarrow> world \<Rightarrow> nat" where
  "unregistered ids w =
     length (filter (\<lambda>(p, i). map_of (p_s (pinias w ! p)) i = None)
               (List.product [0..<length (pinias w)] ids))"

definition pending :: "decls \<Rightarrow> string \<Rightarrow> world \<Rightarrow> nat" where
  "pending ds id' w = unregistered (remdups (id' # map fst ds)) w"

text \<open>
  The world in which the setup function of the setup store \<open>id'\<close> runs when the accessor
  is called with registry \<open>p\<close>: the registry is active and \<open>createSetupStore\<close> has gone
  as far as \<open>pinia._s.set($id, store)\<close>.
\<close>

definition partiallyBuilt :: "string \<Rightarrow> nat \<Rightarrow> world \<Rightarrow> world" where
  "partiallyBuilt id' p w = registerPartialStore id' None p False False (w\<lparr>activePinia := Some p\<rparr>)"

text \<open>
  Two setup stores whose setup functions call each other's accessor: \<open>a\<close> calls \<open>useB()\<close>,
  and \<open>b\<close> calls \<open>useA()\<close> and then its own accessor. And a world with two registries and
  no store, with the world after the counter store has been built in the first registry.
\<close>

definition circularA :: setupScript where
  "circularA =
     \<lparr>accessorCalls = [''b''],
      returned = [(''x'', SRef (PPrim (Num 1)) False), (''f'', SFunction)]\<rparr>"

definition circularB :: setupScript where
  "circularB =
     \<lparr>accessorCalls = [''a'', ''b''],
      returned = [(''y'', SRef (PObj ObjectTag False False [(''z'', PPrim (Num 2))] [] []) False)]\<rparr>"

definition circularDecls :: decls where
  "circularDecls = [(''a'', SetupDecl circularA), (''b'', SetupDecl circularB)]"

definition twoRegistries :: world where
  "twoRegistries =
     emptyWorld\<lparr>pinias := [\<lparr>stateValue = [], p_s = [], p_e_active = True\<rparr>,
                            \<lparr>stateValue = [], p_s = [], p_e_active = True\<rparr>]\<rparr>"

definition builtInFirst :: world where
  "builtInFirst =
     (case useStore 3 [] None (''store'', counterDecl) (Some 0) twoRegistries of
        Some (r, w) \<Rightarrow> w
      | None \<Rightarrow> twoRegistries)"

section \<open>Properties of the merge engine\<close>

lemma place_append:
  "place h p = (h', v) \<Longrightarrow> \<exists>xs. h' = h @ xs"
  "placeProps h ps = (h', vs) \<Longrightarrow> \<exists>xs. h' = h @ xs"
  "placeEntries h es = (h', ws) \<Longrightarrow> \<exists>xs. h' = h @ xs"
  "placeElems h ys = (h', us) \<Longrightarrow> \<exists>xs. h' = h @ xs"
proof (induction h p and h ps and h es and h ys arbitrary: h' v and h' vs and h' ws and h' us rule: place_placeProps_placeEntries_placeElems.induct)
  case (1 h p)
  then show ?case by simp
next
  case (2 h tg r re ps es xs)
  then show ?case by (fastforce split: prod.splits)
next
  case (3 h)
  then show ?case by simp
next
  case (4 h k p ps)
  then show ?case by (fastforce split: prod.splits)
next
  case (5 h)
  then show ?case by simp
next
  case (6 h pk pv es)
  then show ?case by (fastforce split: prod.splits)
next
  case (7 h)
  then show ?case by simp
next
  case (8 h p xs)
  then show ?case by (fastforce split: prod.splits)
qed

lemma edge_append_old: "a < length h \<Longrightarrow> edge (h @ xs) a b = edge h a b"
  by (simp add: edge_def nth_append)

lemma closedAbove_snoc:
  assumes "closedAbove n h" and "\<forall>k b. (k, Ref b) \<in> set (props ob) \<longrightarrow> n \<le> b"
  shows "closedAbove n (h @ [ob])"
  using assms unfolding closedAbove_def edge_def
  by (auto simp: nth_append less_Suc_eq)

lemma place_length:
  "place h p = (h', v) \<Longrightarrow> length h \<le> length h'"
  "placeProps h ps = (h', vs) \<Longrightarrow> length h \<le> length h'"
  "placeEntries h es = (h', ws) \<Longrightarrow> length h \<le> length h'"
  "placeElems h ys = (h', us) \<Longrightarrow> length h \<le> length h'"
  by (auto dest: place_append)

lemma place_closed:
  "place h p = (h', v) \<Longrightarrow> n \<le> length h \<Longrightarrow> closedAbove n h \<Longrightarrow>
     closedAbove n h' \<and> (\<forall>b. v = Ref b \<longrightarrow> length h \<le> b \<and> b < length h')"
  "placeProps h ps = (h', vs) \<Longrightarrow> n \<le> length h \<Longrightarrow> closedAbove n h \<Longrightarrow>
     closedAbove n h' \<and> (\<forall>k b. (k, Ref b) \<in> set vs \<longrightarrow> length h \<le> b \<and> b < length h')"
  "placeEntries h es = (h', ws) \<Longrightarrow> n \<le> length h \<Longrightarrow> closedAbove n h \<Longrightarrow> closedAbove n h'"
  "placeElems h ys = (h', us) \<Longrightarrow> n \<le> length h \<Longrightarrow> closedAbove n h \<Longrightarrow> closedAbove n h'"
proof (induction h p and h ps and h es and h ys arbitrary: h' v and h' vs and h' ws and h' us rule: place_placeProps_placeEntries_placeElems.induct)
  case (1 h p)
  then show ?case by auto
next
  case (2 h tg r re ps es xs)
  obtain h1 ps' where a: "placeProps h ps = (h1, ps')" by (cases "placeProps h ps")
  obtain h2 es' where b: "placeEntries h1 es = (h2, es')" by (cases "placeEntries h1 es")
  obtain h3 xs' where c: "placeElems h2 xs = (h3, xs')" by (cases "placeElems h2 xs")
  have l1: "length h \<le> length h1" using a by (rule place_length)
  have l2: "length h1 \<le> length h2" using b by (rule place_length)
  have l3: "length h2 \<le> length h3" using c by (rule place_length)
  have c1: "closedAbove n h1 \<and> (\<forall>k b. (k, Ref b) \<in> set ps' \<longrightarrow> length h \<le> b \<and> b < length h1)"
    using "2.IH"(1)[OF a "2.prems"(2,3)] .
  have c2: "closedAbove n h2" using "2.IH"(2)[OF a[symmetric] b] c1 l1 "2.prems"(2) by simp
  have c3: "closedAbove n h3" using "2.IH"(3)[OF a[symmetric] b[symmetric] c] c2 l1 l2 "2.prems"(2) by simp
  have eq: "h' = h3 @ [\<lparr>otag = tg, oisRef = r, oisReactive = re, props = ps', mapEntries = es', setElems = xs'\<rparr>]"
    "v = Ref (length h3)"
    using "2.prems"(1) a b c by simp_all
  have "closedAbove n h'" unfolding eq
    by (rule closedAbove_snoc[OF c3]) (use c1 "2.prems"(2) in \<open>auto dest!: spec intro: order_trans\<close>)
  then show ?case using eq l1 l2 l3 by simp
next
  case (3 h)
  then show ?case by simp
next
  case (4 h k p ps)
  obtain h1 x where a: "place h p = (h1, x)" by (cases "place h p")
  obtain h2 vs' where b: "placeProps h1 ps = (h2, vs')" by (cases "placeProps h1 ps")
  have l1: "length h \<le> length h1" using a by (rule place_length)
  have l2: "length h1 \<le> length h2" using b by (rule place_length)
  have c1: "closedAbove n h1 \<and> (\<forall>b. x = Ref b \<longrightarrow> length h \<le> b \<and> b < length h1)"
    using "4.IH"(1)[OF a "4.prems"(2,3)] .
  have c2: "closedAbove n h2 \<and> (\<forall>k b. (k, Ref b) \<in> set vs' \<longrightarrow> length h1 \<le> b \<and> b < length h2)"
    using "4.IH"(2)[OF a[symmetric] b] c1 l1 "4.prems"(2) by simp
  have eq: "h' = h2" "vs = (k, x) # vs'" using "4.prems"(1) a b by simp_all
  have "\<And>k' b. (k', Ref b) \<in> set ((k, x) # vs') \<Longrightarrow> length h \<le> b \<and> b < length h2"
  proof -
    fix k' b assume "(k', Ref b) \<in> set ((k, x) # vs')"
    then consider "x = Ref b" | "(k', Ref b) \<in> set vs'" by auto
    then show "length h \<le> b \<and> b < length h2"
    proof cases
      case 1 then show ?thesis using c1 l2 by auto
    next
      case 2 then have "length h1 \<le> b \<and> b < length h2" using c2 by blast
      then show ?thesis using l1 by simp
    qed
  qed
  then show ?case unfolding eq using c2 by blast
next
  case (5 h)
  then show ?case by simp
next
  case (6 h pk pv es)
  obtain h1 x where a: "place h pk = (h1, x)" by (cases "place h pk")
  obtain h2 y where b: "place h1 pv = (h2, y)" by (cases "place h1 pv")
  obtain h3 vs' where c: "placeEntries h2 es = (h3, vs')" by (cases "placeEntries h2 es")
  have l1: "length h \<le> length h1" using a by (rule place_length)
  have l2: "length h1 \<le> length h2" using b by (rule place_length)
  have c1: "closedAbove n h1" using "6.IH"(1)[OF a "6.prems"(2,3)] by simp
  have c2: "closedAbove n h2" using "6.IH"(2)[OF a[symmetric] b] c1 l1 "6.prems"(2) by simp
  have c3: "closedAbove n h3" using "6.IH"(3)[OF a[symmetric] b[symmetric] c] c2 l1 l2 "6.prems"(2) by simp
  show ?case using "6.prems"(1) a b c c3 by simp
next
  case (7 h)
  then show ?case by simp
next
  case (8 h p xs)
  obtain h1 x where a: "place h p = (h1, x)" by (cases "place h p")
  obtain h2 vs' where b: "placeElems h1 xs = (h2, vs')" by (cases "placeElems h1 xs")
  have l1: "length h \<le> length h1" using a by (rule place_length)
  have c1: "closedAbove n h1" using "8.IH"(1)[OF a "8.prems"(2,3)] by simp
  have c2: "closedAbove n h2" using "8.IH"(2)[OF a[symmetric] b] c1 l1 "8.prems"(2) by simp
  show ?case using "8.prems"(1) a b c2 by simp
qed

lemma grows_refl: "grows h h"
  by (auto simp: grows_def closedAbove_def edge_def)

lemma grows_trans:
  assumes "grows h h'" and "grows h' h''"
  shows "grows h h''"
proof -
  have l: "length h \<le> length h'" "length h' \<le> length h''" using assms by (auto simp: grows_def)
  have g2: "\<forall>a < length h. otag (h'' ! a) = otag (h ! a) \<and> oisRef (h'' ! a) = oisRef (h ! a) \<and>
          oisReactive (h'' ! a) = oisReactive (h ! a) \<and>
          fst ` set (props (h ! a)) \<subseteq> fst ` set (props (h'' ! a))"
  proof (intro allI impI)
    fix a assume a: "a < length h"
    then have a': "a < length h'" using l by simp
    from assms(1) a have 1: "otag (h' ! a) = otag (h ! a) \<and> oisRef (h' ! a) = oisRef (h ! a) \<and>
          oisReactive (h' ! a) = oisReactive (h ! a) \<and>
          fst ` set (props (h ! a)) \<subseteq> fst ` set (props (h' ! a))" by (simp add: grows_def)
    from assms(2) a' have 2: "otag (h'' ! a) = otag (h' ! a) \<and> oisRef (h'' ! a) = oisRef (h' ! a) \<and>
          oisReactive (h'' ! a) = oisReactive (h' ! a) \<and>
          fst ` set (props (h' ! a)) \<subseteq> fst ` set (props (h'' ! a))" by (simp add: grows_def)
    from 1 2 show "otag (h'' ! a) = otag (h ! a) \<and> oisRef (h'' ! a) = oisRef (h ! a) \<and>
          oisReactive (h'' ! a) = oisReactive (h ! a) \<and>
          fst ` set (props (h ! a)) \<subseteq> fst ` set (props (h'' ! a))" by auto
  qed
  have c1: "closedAbove (length h) h'" and c2: "closedAbove (length h') h''"
    using assms by (auto simp: grows_def)
  have o1: "\<And>a b. edge h' a b \<Longrightarrow> a < length h \<Longrightarrow> b < length h \<Longrightarrow> edge h a b"
    and o2: "\<And>a b. edge h'' a b \<Longrightarrow> a < length h' \<Longrightarrow> b < length h' \<Longrightarrow> edge h' a b"
    using assms by (auto simp: grows_def)
  have g4: "closedAbove (length h) h''"
    unfolding closedAbove_def
  proof (intro allI impI)
    fix a b assume e: "edge h'' a b \<and> length h \<le> a"
    show "length h \<le> b"
    proof (cases "length h' \<le> a")
      case True
      with c2 e have "length h' \<le> b" by (auto simp: closedAbove_def)
      with l show ?thesis by simp
    next
      case False
      show ?thesis
      proof (cases "length h' \<le> b")
        case True with l show ?thesis by simp
      next
        case b: False
        with False e have "edge h' a b" by (intro o2) auto
        with c1 e show ?thesis by (auto simp: closedAbove_def)
      qed
    qed
  qed
  have g5: "\<forall>a b. edge h'' a b \<and> a < length h \<and> b < length h \<longrightarrow> edge h a b"
    using o1 o2 l by (meson less_le_trans)
  show ?thesis unfolding grows_def using l g2 g4 g5 by simp
qed

lemma grows_append_closed:
  assumes "closedAbove (length h) (h @ xs)"
  shows "grows h (h @ xs)"
  using assms by (auto simp: grows_def nth_append edge_append_old)

lemma grows_place:
  assumes "place h p = (h', v)"
  shows "grows h h'"
proof -
  obtain xs where x: "h' = h @ xs" using place_append(1)[OF assms] by blast
  have "closedAbove (length h) h" by (auto simp: closedAbove_def edge_def)
  then have "closedAbove (length h) h'" using place_closed(1)[OF assms, of "length h"] by simp
  then show ?thesis unfolding x by (rule grows_append_closed)
qed

lemma place_old:
  assumes "place h p = (h', v)" and "a < length h"
  shows "h' ! a = h ! a"
proof -
  obtain xs where x: "h' = h @ xs" using place_append(1)[OF assms(1)] by blast
  show ?thesis using assms(2) by (simp add: x nth_append)
qed

lemma place_value:
  assumes "place h p = (h', v)"
  shows "(\<forall>q. p = PPrim q \<longrightarrow> v = Prim q \<and> h' = h) \<and>
         (\<forall>b. v = Ref b \<longrightarrow> length h \<le> b \<and> b < length h')"
proof -
  have "closedAbove (length h) h" by (auto simp: closedAbove_def edge_def)
  then show ?thesis using place_closed(1)[OF assms, of "length h"] assms by auto
qed

lemma set_alist_update: "set (AList.update k v al) \<subseteq> insert (k, v) (set al)"
  by (induction al) auto

lemma keys_alist_update: "fst ` set (AList.update k v al) = insert k (fst ` set al)"
  by (induction al) auto

lemma grows_upd:
  assumes g: "grows h h1" and t: "t < length h"
    and tg: "otag ob = otag (h1 ! t)" "oisRef ob = oisRef (h1 ! t)" "oisReactive ob = oisReactive (h1 ! t)"
    and ks: "fst ` set (props (h1 ! t)) \<subseteq> fst ` set (props ob)"
    and es: "\<forall>k b. (k, Ref b) \<in> set (props ob) \<longrightarrow>
               (k, Ref b) \<in> set (props (h1 ! t)) \<or> length h \<le> b \<or> edge h t b"
  shows "grows h (h1[t := ob])"
proof -
  have l: "length h \<le> length h1" using g by (simp add: grows_def)
  have t1: "t < length h1" using t l by simp
  have g2: "\<forall>a < length h. otag (h1[t := ob] ! a) = otag (h ! a) \<and> oisRef (h1[t := ob] ! a) = oisRef (h ! a) \<and>
          oisReactive (h1[t := ob] ! a) = oisReactive (h ! a) \<and>
          fst ` set (props (h ! a)) \<subseteq> fst ` set (props (h1[t := ob] ! a))"
  proof (intro allI impI)
    fix a assume a: "a < length h"
    from g a have 1: "otag (h1 ! a) = otag (h ! a) \<and> oisRef (h1 ! a) = oisRef (h ! a) \<and>
          oisReactive (h1 ! a) = oisReactive (h ! a) \<and>
          fst ` set (props (h ! a)) \<subseteq> fst ` set (props (h1 ! a))" by (simp add: grows_def)
    show "otag (h1[t := ob] ! a) = otag (h ! a) \<and> oisRef (h1[t := ob] ! a) = oisRef (h ! a) \<and>
          oisReactive (h1[t := ob] ! a) = oisReactive (h ! a) \<and>
          fst ` set (props (h ! a)) \<subseteq> fst ` set (props (h1[t := ob] ! a))"
    proof (cases "a = t")
      case True
      have "fst ` set (props (h ! t)) \<subseteq> fst ` set (props ob)"
        using 1 ks True by (meson subset_trans)
      then show ?thesis using 1 tg t1 True by simp
    next
      case False
      then show ?thesis using 1 by simp
    qed
  qed
  have e1: "\<And>a b. edge (h1[t := ob]) a b \<Longrightarrow> a \<noteq> t \<Longrightarrow> edge h1 a b"
    by (auto simp: edge_def)
  have g4: "closedAbove (length h) (h1[t := ob])"
    unfolding closedAbove_def
  proof (intro allI impI)
    fix a b assume e: "edge (h1[t := ob]) a b \<and> length h \<le> a"
    then have "a \<noteq> t" using t by auto
    with e have "edge h1 a b" using e1 by blast
    with g e show "length h \<le> b" by (auto simp: grows_def closedAbove_def)
  qed
  have g5: "\<forall>a b. edge (h1[t := ob]) a b \<and> a < length h \<and> b < length h \<longrightarrow> edge h a b"
  proof (intro allI impI)
    fix a b assume e: "edge (h1[t := ob]) a b \<and> a < length h \<and> b < length h"
    show "edge h a b"
    proof (cases "a = t")
      case False
      with e have "edge h1 a b" using e1 by blast
      with g e show ?thesis by (auto simp: grows_def)
    next
      case True
      with e t1 obtain k where k: "(k, Ref b) \<in> set (props ob)" by (auto simp: edge_def)
      with es have "(k, Ref b) \<in> set (props (h1 ! t)) \<or> length h \<le> b \<or> edge h t b" by blast
      then show ?thesis
      proof (elim disjE)
        assume "(k, Ref b) \<in> set (props (h1 ! t))"
        then have "edge h1 t b" using t1 by (auto simp: edge_def)
        with g e t True show ?thesis by (auto simp: grows_def)
      next
        assume "length h \<le> b" with e show ?thesis by simp
      next
        assume "edge h t b" with True show ?thesis by simp
      qed
    qed
  qed
  show ?thesis unfolding grows_def using l g2 g4 g5 by simp
qed

lemma grows_setProp:
  assumes "grows h h1" and "t < length h"
    and "\<forall>b. v = Ref b \<longrightarrow> length h \<le> b \<or> edge h t b"
  shows "grows h (setProp h1 t k v)"
  unfolding setProp_def
  apply (rule grows_upd[OF assms(1,2)])
  using assms(3) set_alist_update[of k v "props (h1 ! t)"]
  by (auto simp: keys_alist_update)

lemma grows_mapSet:
  assumes "grows h h1" and "t < length h"
  shows "grows h (mapSet h1 t k v)"
  unfolding mapSet_def
  by (rule grows_upd[OF assms(1,2)]) auto

lemma grows_setAdd:
  assumes "grows h h1" and "t < length h"
  shows "grows h (setAdd h1 t v)"
  unfolding setAdd_def
  by (rule grows_upd[OF assms(1,2)]) auto

lemma grows_mapSetAll:
  "grows h0 h \<Longrightarrow> t < length h0 \<Longrightarrow> grows h0 (mapSetAll h t es)"
proof (induction h t es rule: mapSetAll.induct)
  case (1 h t)
  then show ?case by simp
next
  case (2 h t pk pv es)
  obtain h1 k where a: "place h pk = (h1, k)" by (cases "place h pk")
  obtain h2 v where b: "place h1 pv = (h2, v)" by (cases "place h1 pv")
  have "grows h0 h2" using "2.prems"(1) grows_place[OF a] grows_place[OF b] grows_trans by blast
  then have "grows h0 (mapSet h2 t k v)" using "2.prems"(2) by (rule grows_mapSet)
  then show ?case using "2.IH"[OF a[symmetric] b[symmetric]] "2.prems"(2) a b by simp
qed

lemma grows_setAddAll:
  "grows h0 h \<Longrightarrow> t < length h0 \<Longrightarrow> grows h0 (setAddAll h t xs)"
proof (induction h t xs rule: setAddAll.induct)
  case (1 h t)
  then show ?case by simp
next
  case (2 h t p xs)
  obtain h1 v where a: "place h p = (h1, v)" by (cases "place h p")
  have "grows h0 h1" using "2.prems"(1) grows_place[OF a] grows_trans by blast
  then have "grows h0 (setAdd h1 t v)" using "2.prems"(2) by (rule grows_setAdd)
  then show ?case using "2.IH"[OF a[symmetric]] "2.prems"(2) a by simp
qed

lemma merge_snd [simp]: "snd (mergeReactiveObjects h t p) = t"
  by (cases p) (simp_all add: Let_def)

lemma getProp_edge:
  "getProp h t k = Ref b \<Longrightarrow> t < length h \<Longrightarrow> edge h t b"
  unfolding getProp_def edge_def
  by (auto split: option.splits dest: map_of_SomeD)

lemma recurses_Ref:
  "recurses h t key sub \<Longrightarrow> \<exists>tv. getProp h t key = Ref tv \<and> tv < length h"
  by (cases "getProp h t key") (auto simp: recurses_def isPlainObject_def)

lemma mergeKeys_recurse:
  assumes "recurses h t key sub" and "getProp h t key = Ref tv"
  shows "mergeKeys h t ((key, sub) # rest) =
         mergeKeys (setProp (fst (mergeReactiveObjects h tv sub)) t key (Ref tv)) t rest"
proof -
  obtain h' r where m: "mergeReactiveObjects h tv sub = (h', r)"
    by (cases "mergeReactiveObjects h tv sub")
  have r: "r = tv" using m merge_snd[of h tv sub] by simp
  show ?thesis using assms m r by (simp add: recurses_def)
qed

lemma mergeKeys_overwrite:
  assumes "\<not> recurses h t key sub"
  shows "mergeKeys h t ((key, sub) # rest) =
         mergeKeys (setProp (fst (place h sub)) t key (snd (place h sub))) t rest"
proof -
  obtain h' v where p: "place h sub = (h', v)" by (cases "place h sub")
  have "\<not> (isPlainObject h (getProp h t key) \<and> isPlainObjectP sub \<and>
      hasOwnProperty h t key \<and> \<not> isRefP sub \<and> \<not> isReactiveP sub)"
    using assms by (simp add: recurses_def)
  then have "mergeKeys h t ((key, sub) # rest) = mergeKeys (setProp h' t key v) t rest"
    using p by (simp only: mergeKeys.simps Let_def if_False prod.case)
  then show ?thesis using p by simp
qed

lemma grows_merge:
  "t < length h \<longrightarrow> grows h (fst (mergeReactiveObjects h t p))"
  "\<forall>h0. grows h0 h \<longrightarrow> t < length h0 \<longrightarrow> grows h0 (mergeKeys h t ps)"
proof (induction h t p and h t ps rule: mergeReactiveObjects_mergeKeys.induct)
  case (1 h target p)
  then show ?case by (simp add: grows_refl)
next
  case (2 h target tg r re ps es xs)
  show ?case
  proof
    assume t: "target < length h"
    define h1 where "h1 = (if otag (h ! target) = MapTag \<and> tg = MapTag then mapSetAll h target es else h)"
    define h2 where "h2 = (if otag (h1 ! target) = SetTag \<and> tg = SetTag then setAddAll h1 target xs else h1)"
    have g1: "grows h h1" unfolding h1_def using grows_mapSetAll[OF grows_refl t] by (simp add: grows_refl)
    have g2: "grows h h2" unfolding h2_def using grows_setAddAll[OF g1 t] g1 by simp
    have "grows h (mergeKeys h2 target ps)"
      using "2.IH"[OF h1_def h2_def] g2 t by blast
    moreover have "fst (mergeReactiveObjects h target (PObj tg r re ps es xs)) = mergeKeys h2 target ps"
      unfolding h2_def h1_def by (simp add: Let_def)
    ultimately show "grows h (fst (mergeReactiveObjects h target (PObj tg r re ps es xs)))"
      by simp
  qed
next
  case (3 h target)
  then show ?case by simp
next
  case (4 h target key subPatch rest)
  show ?case
  proof (intro allI impI)
    fix h0 assume g0: "grows h0 h" and t0: "target < length h0"
    have l0: "length h0 \<le> length h" using g0 by (simp add: grows_def)
    have t: "target < length h" using t0 l0 by simp
    define targetValue where "targetValue = getProp h target key"
    show "grows h0 (mergeKeys h target ((key, subPatch) # rest))"
    proof (cases "recurses h target key subPatch")
      case True
      then have c: "isPlainObject h targetValue \<and> isPlainObjectP subPatch \<and>
         hasOwnProperty h target key \<and> \<not> isRefP subPatch \<and> \<not> isReactiveP subPatch"
        by (simp add: recurses_def targetValue_def)
      obtain tv where tv: "targetValue = Ref tv" "tv < length h"
        using recurses_Ref[OF True] by (auto simp: targetValue_def)
      obtain h' r where m: "mergeReactiveObjects h tv subPatch = (h', r)"
        by (cases "mergeReactiveObjects h tv subPatch")
      have r: "r = tv" using m merge_snd[of h tv subPatch] by simp
      have "grows h h'" using "4.IH"(2)[OF targetValue_def c tv(1)] tv(2) m by simp
      then have g1: "grows h0 h'" using g0 grows_trans by blast
      have e: "edge h target tv" using tv(1) t by (auto simp: targetValue_def intro: getProp_edge)
      have "length h0 \<le> tv \<or> edge h0 target tv"
      proof (cases "tv < length h0")
        case True
        then show ?thesis using e g0 t0 by (auto simp: grows_def)
      qed simp
      then have g2: "grows h0 (setProp h' target key (Ref r))"
        using r by (intro grows_setProp[OF g1 t0]) auto
      have "grows h0 (mergeKeys (setProp h' target key (Ref r)) target rest)"
        using "4.IH"(3)[OF targetValue_def c tv(1) m[symmetric]] g2 t0 by blast
      then show ?thesis
        using mergeKeys_recurse[OF True, of tv rest] tv(1) m r by (simp add: targetValue_def)
    next
      case False
      then have c: "\<not> (isPlainObject h targetValue \<and> isPlainObjectP subPatch \<and>
         hasOwnProperty h target key \<and> \<not> isRefP subPatch \<and> \<not> isReactiveP subPatch)"
        by (simp add: recurses_def targetValue_def)
      obtain h' v where p: "place h subPatch = (h', v)" by (cases "place h subPatch")
      have g1: "grows h0 h'" using g0 grows_place[OF p] grows_trans by blast
      have "\<forall>b. v = Ref b \<longrightarrow> length h0 \<le> b" using place_value[OF p] l0 by auto
      then have g2: "grows h0 (setProp h' target key v)"
        by (intro grows_setProp[OF g1 t0]) auto
      have "grows h0 (mergeKeys (setProp h' target key v) target rest)"
        using "4.IH"(4)[OF targetValue_def c p[symmetric]] g2 t0 by blast
      then show ?thesis
        using mergeKeys_overwrite[OF False, of rest] p by simp
    qed
  qed
qed

lemma grows_length: "grows h h' \<Longrightarrow> length h \<le> length h'"
  by (simp add: grows_def)

lemma reach_fresh:
  assumes "grows h h'" and "(edge h')\<^sup>*\<^sup>* y a" and "length h \<le> y"
  shows "length h \<le> a"
  using assms(2,3)
proof (induction rule: rtranclp_induct)
  case base
  then show ?case by simp
next
  case (step b c)
  then show ?case using assms(1) by (auto simp: grows_def closedAbove_def)
qed

lemma reach_old:
  assumes g: "grows h h'" and r: "(edge h')\<^sup>*\<^sup>* x a" and a: "a < length h"
  shows "(edge h)\<^sup>*\<^sup>* x a"
  using r a
proof (induction rule: rtranclp_induct)
  case base
  then show ?case by simp
next
  case (step y z)
  have y: "y < length h"
  proof (rule ccontr)
    assume "\<not> y < length h"
    then have "length h \<le> z" using g step.hyps(2)
      unfolding grows_def closedAbove_def by (meson not_less)
    then show False using step.prems by simp
  qed
  then have "(edge h)\<^sup>*\<^sup>* x y" using step.IH by simp
  moreover have "edge h y z" using g step.hyps(2) y step.prems by (auto simp: grows_def)
  ultimately show ?case by simp
qed

lemma cycle_old:
  assumes g: "grows h h'" and c: "(edge h')\<^sup>+\<^sup>+ t t" and t: "t < length h"
  shows "(edge h)\<^sup>+\<^sup>+ t t"
proof -
  from c obtain y where y: "(edge h')\<^sup>*\<^sup>* t y" "edge h' y t"
    by (cases rule: tranclp.cases) (auto dest: tranclp_into_rtranclp)
  have yo: "y < length h"
  proof (rule ccontr)
    assume "\<not> y < length h"
    then have "length h \<le> t" using g y(2)
      unfolding grows_def closedAbove_def by (meson not_less)
    then show False using t by simp
  qed
  have "(edge h)\<^sup>*\<^sup>* t y" using reach_old[OF g y(1) yo] .
  moreover have "edge h y t" using g y(2) yo t by (auto simp: grows_def)
  ultimately show ?thesis by (rule rtranclp_into_tranclp1)
qed

lemma mapSetAll_old:
  "a < length h \<Longrightarrow> a \<noteq> t \<Longrightarrow> mapSetAll h t es ! a = h ! a"
proof (induction h t es rule: mapSetAll.induct)
  case (1 h t)
  then show ?case by simp
next
  case (2 h t pk pv es)
  obtain h1 k where a: "place h pk = (h1, k)" by (cases "place h pk")
  obtain h2 v where b: "place h1 pv = (h2, v)" by (cases "place h1 pv")
  have l: "length h \<le> length h1" "length h1 \<le> length h2"
    using a b by (auto dest: place_length)
  have "mapSet h2 t k v ! a = h ! a"
    using "2.prems" l place_old[OF a, of a] place_old[OF b, of a] by (simp add: mapSet_def)
  moreover have "a < length (mapSet h2 t k v)" using "2.prems" l by (simp add: mapSet_def)
  ultimately show ?case using "2.IH"[OF a[symmetric] b[symmetric]] "2.prems"(2) a b by simp
qed

lemma setAddAll_old:
  "a < length h \<Longrightarrow> a \<noteq> t \<Longrightarrow> setAddAll h t xs ! a = h ! a"
proof (induction h t xs rule: setAddAll.induct)
  case (1 h t)
  then show ?case by simp
next
  case (2 h t p xs)
  obtain h1 v where a: "place h p = (h1, v)" by (cases "place h p")
  have l: "length h \<le> length h1" using a by (auto dest: place_length)
  have "setAdd h1 t v ! a = h ! a"
    using "2.prems" l place_old[OF a, of a] by (simp add: setAdd_def)
  moreover have "a < length (setAdd h1 t v)" using "2.prems" l by (simp add: setAdd_def)
  ultimately show ?case using "2.IH"[OF a[symmetric]] "2.prems"(2) a by simp
qed




lemma afterCollections_grows:
  assumes "t < length h" shows "grows h (afterCollections h t p)"
proof (cases p)
  case (PPrim x)
  then show ?thesis by (simp add: afterCollections_def grows_refl)
next
  case (PObj tg r re ps es xs)
  define h1 where "h1 = (if otag (h ! t) = MapTag \<and> tg = MapTag then mapSetAll h t es else h)"
  have g1: "grows h h1" unfolding h1_def using grows_mapSetAll[OF grows_refl assms] by (simp add: grows_refl)
  define h2 where "h2 = (if otag (h1 ! t) = SetTag \<and> tg = SetTag then setAddAll h1 t xs else h1)"
  have "grows h h2"
    unfolding h2_def using grows_setAddAll[OF g1 assms] g1 by simp
  moreover have "afterCollections h t p = h2"
    unfolding h2_def h1_def using PObj by (simp add: afterCollections_def Let_def)
  ultimately show ?thesis by simp
qed

lemma afterCollections_old:
  assumes "a < length h" and "a \<noteq> t" and "t < length h"
  shows "afterCollections h t p ! a = h ! a"
proof (cases p)
  case (PPrim x)
  then show ?thesis by (simp add: afterCollections_def)
next
  case (PObj tg r re ps es xs)
  define h1 where "h1 = (if otag (h ! t) = MapTag \<and> tg = MapTag then mapSetAll h t es else h)"
  have e1: "h1 ! a = h ! a" unfolding h1_def using mapSetAll_old[OF assms(1,2)] by simp
  have "grows h h1" unfolding h1_def
    using grows_mapSetAll[OF grows_refl assms(3)] by (simp add: grows_refl)
  then have l: "a < length h1" using assms(1) by (auto dest: grows_length)
  define h2 where "h2 = (if otag (h1 ! t) = SetTag \<and> tg = SetTag then setAddAll h1 t xs else h1)"
  have "h2 ! a = h ! a"
    unfolding h2_def using setAddAll_old[OF l assms(2)] e1 by simp
  moreover have "afterCollections h t p = h2"
    unfolding h2_def h1_def using PObj by (simp add: afterCollections_def Let_def)
  ultimately show ?thesis by simp
qed


lemma setProp_other: "a \<noteq> t \<Longrightarrow> setProp h t k v ! a = h ! a"
  by (simp add: setProp_def)

lemma setProp_length [simp]: "length (setProp h t k v) = length h"
  by (simp add: setProp_def)

lemma unchanged_merge:
  "t < length h \<longrightarrow> unchangedOutside h (fst (mergeReactiveObjects h t p)) {a. (edge h)\<^sup>*\<^sup>* t a}"
  "\<forall>h0. grows h0 h \<longrightarrow> t < length h0 \<longrightarrow> unchangedOutside h0 h {a. (edge h0)\<^sup>*\<^sup>* t a} \<longrightarrow>
        unchangedOutside h0 (mergeKeys h t ps) {a. (edge h0)\<^sup>*\<^sup>* t a}"
proof (induction h t p and h t ps rule: mergeReactiveObjects_mergeKeys.induct)
  case (1 h target p)
  then show ?case by (simp add: unchangedOutside_def)
next
  case (2 h target tg r re ps es xs)
  show ?case
  proof
    assume t: "target < length h"
    define h1 where "h1 = (if otag (h ! target) = MapTag \<and> tg = MapTag then mapSetAll h target es else h)"
    define h2 where "h2 = (if otag (h1 ! target) = SetTag \<and> tg = SetTag then setAddAll h1 target xs else h1)"
    have h2: "h2 = afterCollections h target (PObj tg r re ps es xs)"
      by (simp add: h2_def h1_def afterCollections_def Let_def)
    have g2: "grows h h2" unfolding h2 using t by (rule afterCollections_grows)
    have u2: "unchangedOutside h h2 {a. (edge h)\<^sup>*\<^sup>* target a}"
      unfolding unchangedOutside_def h2 using afterCollections_old[OF _ _ t] by auto
    have "unchangedOutside h (mergeKeys h2 target ps) {a. (edge h)\<^sup>*\<^sup>* target a}"
      using "2.IH"[OF h1_def h2_def] g2 t u2 by blast
    moreover have "fst (mergeReactiveObjects h target (PObj tg r re ps es xs)) = mergeKeys h2 target ps"
      unfolding h2_def h1_def by (simp add: Let_def)
    ultimately show "unchangedOutside h (fst (mergeReactiveObjects h target (PObj tg r re ps es xs))) {a. (edge h)\<^sup>*\<^sup>* target a}"
      by simp
  qed
next
  case (3 h target)
  then show ?case by simp
next
  case (4 h target key subPatch rest)
  show ?case
  proof (intro allI impI)
    fix h0 assume g0: "grows h0 h" and t0: "target < length h0"
      and u0: "unchangedOutside h0 h {a. (edge h0)\<^sup>*\<^sup>* target a}"
    have l0: "length h0 \<le> length h" using g0 by (simp add: grows_def)
    have t: "target < length h" using t0 l0 by simp
    define targetValue where "targetValue = getProp h target key"
    show "unchangedOutside h0 (mergeKeys h target ((key, subPatch) # rest)) {a. (edge h0)\<^sup>*\<^sup>* target a}"
    proof (cases "recurses h target key subPatch")
      case True
      then have c: "isPlainObject h targetValue \<and> isPlainObjectP subPatch \<and>
         hasOwnProperty h target key \<and> \<not> isRefP subPatch \<and> \<not> isReactiveP subPatch"
        by (simp add: recurses_def targetValue_def)
      obtain tv where tv: "targetValue = Ref tv" "tv < length h"
        using recurses_Ref[OF True] by (auto simp: targetValue_def)
      obtain h' r where m: "mergeReactiveObjects h tv subPatch = (h', r)"
        by (cases "mergeReactiveObjects h tv subPatch")
      have r: "r = tv" using m merge_snd[of h tv subPatch] by simp
      have gh: "grows h h'" using grows_merge(1)[of tv h subPatch] tv(2) m by simp
      then have g1: "grows h0 h'" using g0 grows_trans by blast
      have e: "edge h target tv" using tv(1) t by (auto simp: targetValue_def intro: getProp_edge)
      have "length h0 \<le> tv \<or> edge h0 target tv"
      proof (cases "tv < length h0")
        case True
        then show ?thesis using e g0 t0 by (auto simp: grows_def)
      qed simp
      then have g2: "grows h0 (setProp h' target key (Ref r))"
        using r by (intro grows_setProp[OF g1 t0]) auto
      have u1: "unchangedOutside h h' {a. (edge h)\<^sup>*\<^sup>* tv a}"
        using "4.IH"(2)[OF targetValue_def c tv(1)] tv(2) m by simp
      have u2: "unchangedOutside h0 (setProp h' target key (Ref r)) {a. (edge h0)\<^sup>*\<^sup>* target a}"
        unfolding unchangedOutside_def
      proof (intro allI impI)
        fix a assume a: "a < length h0" and n: "a \<notin> {a. (edge h0)\<^sup>*\<^sup>* target a}"
        have at: "a \<noteq> target" using n by auto
        have "\<not> (edge h)\<^sup>*\<^sup>* tv a"
        proof
          assume "(edge h)\<^sup>*\<^sup>* tv a"
          then have "(edge h)\<^sup>*\<^sup>* target a" using e by (meson converse_rtranclp_into_rtranclp)
          then have "(edge h0)\<^sup>*\<^sup>* target a" using reach_old[OF g0 _ a] by blast
          then show False using n by simp
        qed
        then have "h' ! a = h ! a" using u1 a l0 by (simp add: unchangedOutside_def)
        moreover have "h ! a = h0 ! a" using u0 a n by (simp add: unchangedOutside_def)
        ultimately show "setProp h' target key (Ref r) ! a = h0 ! a"
          using at by (simp add: setProp_other)
      qed
      have "unchangedOutside h0 (mergeKeys (setProp h' target key (Ref r)) target rest) {a. (edge h0)\<^sup>*\<^sup>* target a}"
        using "4.IH"(3)[OF targetValue_def c tv(1) m[symmetric]] g2 t0 u2 by blast
      then show ?thesis
        using mergeKeys_recurse[OF True, of tv rest] tv(1) m r by (simp add: targetValue_def)
    next
      case False
      then have c: "\<not> (isPlainObject h targetValue \<and> isPlainObjectP subPatch \<and>
         hasOwnProperty h target key \<and> \<not> isRefP subPatch \<and> \<not> isReactiveP subPatch)"
        by (simp add: recurses_def targetValue_def)
      obtain h' v where p: "place h subPatch = (h', v)" by (cases "place h subPatch")
      have g1: "grows h0 h'" using g0 grows_place[OF p] grows_trans by blast
      have "\<forall>b. v = Ref b \<longrightarrow> length h0 \<le> b" using place_value[OF p] l0 by auto
      then have g2: "grows h0 (setProp h' target key v)"
        by (intro grows_setProp[OF g1 t0]) auto
      have u2: "unchangedOutside h0 (setProp h' target key v) {a. (edge h0)\<^sup>*\<^sup>* target a}"
        unfolding unchangedOutside_def
      proof (intro allI impI)
        fix a assume a: "a < length h0" and n: "a \<notin> {a. (edge h0)\<^sup>*\<^sup>* target a}"
        have at: "a \<noteq> target" using n by auto
        have "h' ! a = h ! a" using place_old[OF p] a l0 by simp
        moreover have "h ! a = h0 ! a" using u0 a n by (simp add: unchangedOutside_def)
        ultimately show "setProp h' target key v ! a = h0 ! a"
          using at by (simp add: setProp_other)
      qed
      have "unchangedOutside h0 (mergeKeys (setProp h' target key v) target rest) {a. (edge h0)\<^sup>*\<^sup>* target a}"
        using "4.IH"(4)[OF targetValue_def c p[symmetric]] g2 t0 u2 by blast
      then show ?thesis
        using mergeKeys_overwrite[OF False, of rest] p by simp
    qed
  qed
qed



lemma props_setProp:
  "t < length h \<Longrightarrow> props (setProp h t k v ! t) = AList.update k v (props (h ! t))"
  by (simp add: setProp_def)


lemma hasOwn_update:
  "props (h' ! t) = AList.update k v (props (h ! t)) \<Longrightarrow>
   hasOwnProperty h' t k' = (k' = k \<or> hasOwnProperty h t k')"
  by (auto simp: hasOwnProperty_def keys_alist_update)

lemma mergeKeys_step:
  "mergeKeys h t ((key, sub) # rest) = mergeKeys (stepKey h t key sub) t rest"
proof (cases "recurses h t key sub")
  case True
  obtain tv where tv: "getProp h t key = Ref tv" using recurses_Ref[OF True] by blast
  show ?thesis using mergeKeys_recurse[OF True tv] True tv by (simp add: stepKey_def)
next
  case False
  show ?thesis using mergeKeys_overwrite[OF False] False by (simp add: stepKey_def)
qed

lemma stepKey_grows:
  assumes t: "t < length h"
  shows "grows h (stepKey h t key sub)"
proof (cases "recurses h t key sub")
  case True
  obtain tv where tv: "getProp h t key = Ref tv" "tv < length h" using recurses_Ref[OF True] by blast
  have "grows h (fst (mergeReactiveObjects h tv sub))" using grows_merge(1) tv(2) by blast
  then have "grows h (setProp (fst (mergeReactiveObjects h tv sub)) t key (Ref tv))"
    using getProp_edge[OF tv(1) t] by (intro grows_setProp[OF _ t]) auto
  then show ?thesis using True tv by (simp add: stepKey_def)
next
  case False
  obtain h' v where p: "place h sub = (h', v)" by (cases "place h sub")
  have "\<forall>b. v = Ref b \<longrightarrow> length h \<le> b" using place_value[OF p] by auto
  then have "grows h (setProp h' t key v)"
    by (intro grows_setProp[OF grows_place[OF p] t]) auto
  then show ?thesis using False p by (simp add: stepKey_def)
qed

lemma stepKey_props:
  assumes t: "t < length h" and nc: "\<not> (edge h)\<^sup>+\<^sup>+ t t"
  shows "props (stepKey h t key sub ! t) = AList.update key (stepValue h t key sub) (props (h ! t))"
proof (cases "recurses h t key sub")
  case True
  obtain tv where tv: "getProp h t key = Ref tv" "tv < length h" using recurses_Ref[OF True] by blast
  define h1 where "h1 = fst (mergeReactiveObjects h tv sub)"
  have e: "edge h t tv" using getProp_edge[OF tv(1) t] .
  have "\<not> (edge h)\<^sup>*\<^sup>* tv t"
  proof
    assume "(edge h)\<^sup>*\<^sup>* tv t"
    then have "(edge h)\<^sup>+\<^sup>+ t t" using e by (rule rtranclp_into_tranclp2[rotated])
    then show False using nc by simp
  qed
  then have same: "h1 ! t = h ! t"
    using unchanged_merge(1)[of tv h sub] tv(2) t by (simp add: unchangedOutside_def h1_def)
  have "length h \<le> length h1" unfolding h1_def using grows_merge(1)[of tv h sub] tv(2) by (auto dest: grows_length)
  then have "t < length h1" using t by simp
  then have "props (setProp h1 t key (Ref tv) ! t) = AList.update key (Ref tv) (props (h ! t))"
    using same by (simp add: props_setProp)
  then show ?thesis using True tv by (simp add: stepKey_def stepValue_def h1_def)
next
  case False
  obtain h' v where p: "place h sub = (h', v)" by (cases "place h sub")
  have "t < length h'" using place_length(1)[OF p] t by simp
  then have "props (setProp h' t key v ! t) = AList.update key v (props (h ! t))"
    using place_old[OF p t] by (simp add: props_setProp)
  then show ?thesis using False p by (simp add: stepKey_def stepValue_def)
qed

lemma stepKey_acyclic:
  assumes "t < length h" and "\<not> (edge h)\<^sup>+\<^sup>+ t t"
  shows "\<not> (edge (stepKey h t key sub))\<^sup>+\<^sup>+ t t"
  using cycle_old[OF stepKey_grows[OF assms(1)] _ assms(1)] assms(2) by blast


lemma keys_mergeKeys:
  "t < length h \<Longrightarrow> \<not> (edge h)\<^sup>+\<^sup>+ t t \<Longrightarrow>
   hasOwnProperty (mergeKeys h t ps) t k = (k \<in> fst ` set ps \<or> hasOwnProperty h t k)"
proof (induction ps arbitrary: h)
  case Nil
  then show ?case by simp
next
  case (Cons a ps)
  obtain key sub where a: "a = (key, sub)" by (cases a)
  define h2 where "h2 = stepKey h t key sub"
  have l: "t < length h2"
    unfolding h2_def using grows_length[OF stepKey_grows[OF Cons.prems(1), of key sub]] Cons.prems(1) by simp
  have nc: "\<not> (edge h2)\<^sup>+\<^sup>+ t t" unfolding h2_def using stepKey_acyclic[OF Cons.prems(1,2)] .
  have "hasOwnProperty (mergeKeys h2 t ps) t k = (k \<in> fst ` set ps \<or> hasOwnProperty h2 t k)"
    using Cons.IH[OF l nc] .
  also have "hasOwnProperty h2 t k = (k = key \<or> hasOwnProperty h t k)"
    using hasOwn_update[OF stepKey_props[OF Cons.prems(1,2)]] by (simp add: h2_def)
  finally show ?case by (auto simp: a mergeKeys_step h2_def simp del: mergeKeys.simps)
qed




















lemmas heap_eval = getProp_def setProp_def isPlainObject_def hasOwnProperty_def Let_def









section \<open>Properties of \<open>$patch\<close>\<close>

lemma patch_returned_aux:
  assumes "s < length (stores w)" and "patchOutcome s arg w = (None, h')"
  shows "patch s arg w = (Returned (),
     w\<lparr>heap := h', symbols := Suc (symbols w),
       microtasks := microtasks w @ [(s, symbols w)],
       stores := (stores w)[s := (stores w ! s)\<lparr>isListening := False,
                   activeListener := Some (symbols w), isSyncListening := True\<rparr>],
       trace := trace w @
         map (\<lambda>cb. StateSubscriberCalled cb (subscriptionMutation (sid (stores w ! s)) arg)
                      (stateSlot w s))
           (subscriptions (stores w ! s))\<rparr>)"
  using assms
  by (cases arg)
     (simp_all add: patch_def patchOutcome_def subscriptionMutation_def Let_def updStore_def
        stateSlot_def triggerSubscriptions_def split: prod.splits)

lemma patch_returned:
  assumes "s < length (stores w)" and "fst (patchOutcome s arg w) = None"
  shows "patch s arg w = (Returned (),
     w\<lparr>heap := snd (patchOutcome s arg w), symbols := Suc (symbols w),
       microtasks := microtasks w @ [(s, symbols w)],
       stores := (stores w)[s := (stores w ! s)\<lparr>isListening := False,
                   activeListener := Some (symbols w), isSyncListening := True\<rparr>],
       trace := trace w @
         map (\<lambda>cb. StateSubscriberCalled cb (subscriptionMutation (sid (stores w ! s)) arg)
                      (stateSlot w s))
           (subscriptions (stores w ! s))\<rparr>)"
proof -
  have "patchOutcome s arg w = (None, snd (patchOutcome s arg w))"
    using assms(2) by (cases "patchOutcome s arg w") simp
  from patch_returned_aux [OF assms(1) this] show ?thesis .
qed

lemma patch_thrown_aux:
  assumes "s < length (stores w)" and "patchOutcome s arg w = (Some e, h')"
  shows "patch s arg w = (Thrown e,
     w\<lparr>stores := (stores w)[s := (stores w ! s)\<lparr>isListening := False,
                   isSyncListening := False\<rparr>],
       heap := h'\<rparr>)"
  using assms
  by (cases arg)
     (simp_all add: patch_def patchOutcome_def Let_def updStore_def stateSlot_def
        split: prod.splits)

lemma patch_thrown:
  assumes "s < length (stores w)" and "fst (patchOutcome s arg w) = Some e"
  shows "patch s arg w = (Thrown e,
     w\<lparr>stores := (stores w)[s := (stores w ! s)\<lparr>isListening := False,
                   isSyncListening := False\<rparr>],
       heap := snd (patchOutcome s arg w)\<rparr>)"
proof -
  have "patchOutcome s arg w = (Some e, snd (patchOutcome s arg w))"
    using assms(2) by (cases "patchOutcome s arg w") simp
  from patch_thrown_aux [OF assms(1) this] show ?thesis .
qed

lemma patchOutcome_partial_slot:
  "stateSlot w s = Ref a \<Longrightarrow> fst (patchOutcome s (Partial p) w) = None"
  by (simp add: patchOutcome_def mergeInto_def)

lemma reEnable_activeListener [simp]:
  "activeListener (stores (reEnable cb w) ! s) = activeListener (stores w ! s)"
  by (cases cb; cases "fst cb < length (stores w)"; cases "fst cb = s")
     (auto simp: reEnable_def updStore_def list_update_beyond)

lemma reEnable_length [simp]: "length (stores (reEnable cb w)) = length (stores w)"
  by (cases cb) (simp add: reEnable_def updStore_def)

lemma fold_reEnable_activeListener [simp]:
  "activeListener (stores (fold reEnable q w) ! s) = activeListener (stores w ! s)"
  by (induction q arbitrary: w) simp_all

lemma fold_reEnable_length [simp]:
  "length (stores (fold reEnable q w)) = length (stores w)"
  by (induction q arbitrary: w) simp_all





lemma counter_slot: "stateSlot counterWorld 0 = Ref 1"
  by (simp add: stateSlot_def counterWorld_def counterStore_def)



lemma stateSlot_cong:
  "pinias w' = pinias w \<Longrightarrow> sid (stores w' ! s) = sid (stores w ! s) \<Longrightarrow>
   sp (stores w' ! s) = sp (stores w ! s) \<Longrightarrow> stateSlot w' s = stateSlot w s"
  by (simp add: stateSlot_def)

lemma patch_stateSlot:
  assumes "s < length (stores w)"
  shows "stateSlot (snd (patch s arg w)) s' = stateSlot w s'"
proof (cases "fst (patchOutcome s arg w)")
  case None
  show ?thesis
    using assms by (intro stateSlot_cong)
       (simp_all add: patch_returned [OF assms None] nth_list_update)
next
  case (Some e)
  show ?thesis
    using assms by (intro stateSlot_cong)
       (simp_all add: patch_thrown [OF assms Some] nth_list_update)
qed



lemmas build_eval = createOptionsStore_def createSetupStore_def registerPartialStore_def
  optionsSetup_def updPinia_def updStore_def callState_def emptyObject_def classify_def
  stateSlot_def getState_def runSetup_def

lemma patch_frame:
  assumes "s < length (stores w)"
  shows "DEV (snd (patch s arg w)) = DEV w \<and> pinias (snd (patch s arg w)) = pinias w \<and>
         length (stores (snd (patch s arg w))) = length (stores w) \<and>
         hot (stores (snd (patch s arg w)) ! s') = hot (stores w ! s') \<and>
         sid (stores (snd (patch s arg w)) ! s') = sid (stores w ! s') \<and>
         heap (snd (patch s arg w)) = snd (patchOutcome s arg w)"
proof (cases "fst (patchOutcome s arg w)")
  case None
  show ?thesis using assms
    by (simp add: patch_returned [OF assms None] nth_list_update)
next
  case (Some e)
  show ?thesis using assms
    by (simp add: patch_thrown [OF assms Some] nth_list_update)
qed

text \<open>
  C1 fails as stated for a store built for hot replacement under \<open>__DEV__\<close>: its \<open>$state\<close>
  is \<open>hotState.value\<close>, the registry has no slot for its id, and an object patch throws.
\<close>

theorem hot_store_state_counterexample:
  "DEV hotCounterWorld \<and> hot (stores hotCounterWorld ! 0) \<and>
   getState hotCounterWorld 0 = Ref 0 \<and> stateSlot hotCounterWorld 0 = Prim Undefined \<and>
   fst (patch 0 (Partial counterInit) hotCounterWorld) = Thrown TypeError"
  by (simp add: hotCounterWorld_def emptyWorld_def build_eval Let_def heap_eval counterInit_def
      patch_def mergeInto_def)

text \<open>
  C1, amended. For a store that is not a hot store under \<open>__DEV__\<close>, \<open>$state\<close> is the
  registry's slot \<open>pinia.state.value[id]\<close> before and after any \<open>$patch\<close> call, in either
  form and whether or not the call throws, and it is the same value before and after:
  \<open>$patch\<close> never assigns the slot. An object patch on an existing state object returns,
  merges into that object, which stays at its address with its tag and all its keys, and
  \<open>mergeReactiveObjects\<close> hands back the address it was given.
\<close>

theorem patch_keeps_state_identity:
  assumes "s < length (stores w)" and "\<not> (DEV w \<and> hot (stores w ! s))"
  shows "(let w' = snd (patch s arg w) in
          getState w s = stateSlot w s \<and> getState w' s = stateSlot w' s \<and>
          getState w' s = getState w s \<and>
          (\<forall>a p. arg = Partial p \<and> stateSlot w s = Ref a \<and> a < length (heap w) \<longrightarrow>
             fst (patch s arg w) = Returned () \<and>
             heap w' = fst (mergeReactiveObjects (heap w) a p) \<and>
             snd (mergeReactiveObjects (heap w) a p) = a \<and>
             a < length (heap w') \<and> otag (heap w' ! a) = otag (heap w ! a) \<and>
             fst ` set (props (heap w ! a)) \<subseteq> fst ` set (props (heap w' ! a))))"
proof -
  define w' where "w' = snd (patch s arg w)"
  note f = patch_frame [OF assms(1), of arg s, folded w'_def]
  have a: "getState w s = stateSlot w s" using assms(2) by (auto simp: getState_def)
  have b: "getState w' s = stateSlot w' s" using assms(2) f by (auto simp: getState_def)
  have c: "stateSlot w' s = stateSlot w s" unfolding w'_def using patch_stateSlot[OF assms(1)] .
  have d: "\<forall>a p. arg = Partial p \<and> stateSlot w s = Ref a \<and> a < length (heap w) \<longrightarrow>
             fst (patch s arg w) = Returned () \<and>
             heap w' = fst (mergeReactiveObjects (heap w) a p) \<and>
             snd (mergeReactiveObjects (heap w) a p) = a \<and>
             a < length (heap w') \<and> otag (heap w' ! a) = otag (heap w ! a) \<and>
             fst ` set (props (heap w ! a)) \<subseteq> fst ` set (props (heap w' ! a))"
  proof (intro allI impI)
    fix a p assume h: "arg = Partial p \<and> stateSlot w s = Ref a \<and> a < length (heap w)"
    then have o: "fst (patchOutcome s arg w) = None" by (simp add: patchOutcome_partial_slot)
    have r: "fst (patch s arg w) = Returned ()" by (simp add: patch_returned [OF assms(1) o])
    have hp: "heap w' = fst (mergeReactiveObjects (heap w) a p)"
      using f h by (simp add: patchOutcome_def mergeInto_def)
    have g: "grows (heap w) (heap w')" unfolding hp using grows_merge(1) h by blast
    show "fst (patch s arg w) = Returned () \<and>
             heap w' = fst (mergeReactiveObjects (heap w) a p) \<and>
             snd (mergeReactiveObjects (heap w) a p) = a \<and>
             a < length (heap w') \<and> otag (heap w' ! a) = otag (heap w ! a) \<and>
             fst ` set (props (heap w ! a)) \<subseteq> fst ` set (props (heap w' ! a))"
      using r hp g h by (auto simp: grows_def)
  qed
  have e: "getState w' s = getState w s" using a b c by simp
  show ?thesis unfolding Let_def w'_def[symmetric] by (intro conjI a b e d)
qed

theorem patch_keeps_state_identity_witness:
  "0 < length (stores counterWorld) \<and> \<not> (DEV counterWorld \<and> hot (stores counterWorld ! 0)) \<and>
   stateSlot counterWorld 0 = Ref 1 \<and> 1 < length (heap counterWorld) \<and>
   getState counterWorld 0 = Ref 1 \<and>
   getState (snd (patch 0 (Partial counterInit) counterWorld)) 0 = Ref 1 \<and>
   fst (patch 0 (Partial counterInit) counterWorld) = Returned () \<and>
   otag (heap (snd (patch 0 (Partial counterInit) counterWorld)) ! 1) = ObjectTag"
proof -
  have h1: "0 < length (stores counterWorld)" by (simp add: counterWorld_def)
  have h2: "\<not> (DEV counterWorld \<and> hot (stores counterWorld ! 0))"
    by (simp add: counterWorld_def counterStore_def)
  have h3: "1 < length (heap counterWorld)" "otag (heap counterWorld ! 1) = ObjectTag"
    by (simp_all add: counterWorld_def counterHeap_def)
  note t = patch_keeps_state_identity [OF h1 h2, of "Partial counterInit", unfolded Let_def]
  show ?thesis using h1 h2 h3 t counter_slot by auto
qed

section \<open>Properties of \<open>$reset\<close>\<close>



lemma fold_setProp_length [simp]:
  "length (fold (\<lambda>(k, v) h'. setProp h' t k v) vs h) = length h"
  by (induction vs arbitrary: h) (auto split: prod.splits)







section \<open>Properties of store construction\<close>












section \<open>Properties of wrapped actions\<close>

lemma wrapAction_cases:
  "wrapAction hooks s name action args w =
     (case action args (announced s name args w) of
        (ThrowsError e, w3) \<Rightarrow>
          (WThrown e, w3\<lparr>trace := trace w3 @ map (\<lambda>cb. OnErrorCalled cb e)
                                   (onErrorCallbackList (invocationOf hooks s w))\<rparr>)
      | (ReturnsPromise pr, w3) \<Rightarrow> (WPromise pr (invocationOf hooks s w), w3)
      | (ReturnsValue v, w3) \<Rightarrow>
          (WValue v, w3\<lparr>trace := trace w3 @ map (\<lambda>cb. AfterCalled cb v)
                                   (afterCallbackList (invocationOf hooks s w))\<rparr>))"
  by (simp add: wrapAction_def announced_def invocationOf_def triggerSubscriptions_def Let_def
      split: prod.splits actionOutcome.splits)

lemma actionWorld_subscribers: "actionSubscriptions (stores actionWorld ! 0) = [5]"
  by (simp add: actionWorld_def onAction_def updStore_def counterWorld_def counterStore_def
      addSubscription_def)

lemma actionWorld_trace: "trace actionWorld = []"
  by (simp add: actionWorld_def onAction_def updStore_def counterWorld_def)

lemma actionWorld_invocation:
  "invocationOf exampleHooks 0 actionWorld =
     \<lparr>afterCallbackList = [10], onErrorCallbackList = [11]\<rparr>"
  by (simp add: invocationOf_def actionWorld_subscribers exampleHooks_def)



text \<open>
  C10. When the body of a wrapped action returns a value that is not a promise, the
  wrapper calls the \<open>after\<close> hooks registered during the invocation with that value, in
  order and within the call, and returns the value.
\<close>

theorem wrapAction_calls_after_hooks_synchronously:
  "action args (announced s name args w) = (ReturnsValue v, w3) \<Longrightarrow>
   wrapAction hooks s name action args w =
     (WValue v, w3\<lparr>trace := trace w3 @ map (\<lambda>cb. AfterCalled cb v)
                              (afterCallbackList (invocationOf hooks s w))\<rparr>)"
  by (simp add: wrapAction_cases)

theorem wrapAction_calls_after_hooks_synchronously_witness:
  "returningAction [] (announced 0 ''increment'' [] actionWorld) =
     (ReturnsValue (Prim Undefined), announced 0 ''increment'' [] actionWorld) \<and>
   fst (wrapAction exampleHooks 0 ''increment'' returningAction [] actionWorld) =
     WValue (Prim Undefined) \<and>
   trace (snd (wrapAction exampleHooks 0 ''increment'' returningAction [] actionWorld)) =
     [ActionSubscriberCalled 5 ''increment'' [], AfterCalled 10 (Prim Undefined)]"
proof -
  have h: "returningAction [] (announced 0 ''increment'' [] actionWorld) =
     (ReturnsValue (Prim Undefined), announced 0 ''increment'' [] actionWorld)"
    by (simp add: returningAction_def)
  note t = wrapAction_calls_after_hooks_synchronously
             [where action = returningAction and args = "[]" and s = 0
                and name = "''increment''" and w = actionWorld and hooks = exampleHooks, OF h,
              unfolded actionWorld_invocation]
  show ?thesis
    using h
    by (simp add: t actionWorld_invocation announced_def actionWorld_subscribers
        actionWorld_trace)
qed

section \<open>Properties of the accessor\<close>

lemma extends_refl: "extends w w"
  by (simp add: extends_def)

lemma extends_trans: "extends w w' \<Longrightarrow> extends w' w'' \<Longrightarrow> extends w w''"
  unfolding extends_def by (auto simp: less_le_trans)

lemma sameRegistry_facts:
  assumes "sameRegistry w w'"
  shows "length (pinias w') = length (pinias w)" "length (stores w') = length (stores w)"
    "p < length (pinias w) \<Longrightarrow> p_s (pinias w' ! p) = p_s (pinias w ! p)"
    "s < length (stores w) \<Longrightarrow> sp (stores w' ! s) = sp (stores w ! s)"
    "s < length (stores w) \<Longrightarrow> sid (stores w' ! s) = sid (stores w ! s)"
proof -
  have a: "map p_s (pinias w') = map p_s (pinias w)"
    and b: "map (\<lambda>st. (sp st, sid st)) (stores w') = map (\<lambda>st. (sp st, sid st)) (stores w)"
    using assms by (auto simp: sameRegistry_def)
  show lp: "length (pinias w') = length (pinias w)" using a by (metis length_map)
  show ls: "length (stores w') = length (stores w)" using b by (metis length_map)
  show "p < length (pinias w) \<Longrightarrow> p_s (pinias w' ! p) = p_s (pinias w ! p)"
    using a lp by (metis nth_map)
  have "s < length (stores w) \<Longrightarrow> (sp (stores w' ! s), sid (stores w' ! s)) = (sp (stores w ! s), sid (stores w ! s))"
    using b ls nth_map[of s "stores w'" "\<lambda>st. (sp st, sid st)"] nth_map[of s "stores w" "\<lambda>st. (sp st, sid st)"]
    by simp
  then show "s < length (stores w) \<Longrightarrow> sp (stores w' ! s) = sp (stores w ! s)"
    "s < length (stores w) \<Longrightarrow> sid (stores w' ! s) = sid (stores w ! s)" by simp_all
qed

lemma sameRegistry_refl: "sameRegistry w w"
  by (simp add: sameRegistry_def)

lemma sameRegistry_trans: "sameRegistry w w' \<Longrightarrow> sameRegistry w' w'' \<Longrightarrow> sameRegistry w w''"
  by (simp add: sameRegistry_def)

lemma sameRegistry_extends: "sameRegistry w w' \<Longrightarrow> extends w w'"
  using sameRegistry_facts[of w w'] by (simp add: extends_def)

lemma sameRegistry_wf: "sameRegistry w w' \<Longrightarrow> wfRegistry w \<Longrightarrow> wfRegistry w'"
  using sameRegistry_facts[of w w'] unfolding wfRegistry_def by metis

lemma sameRegistry_unregistered: "sameRegistry w w' \<Longrightarrow> unregistered ids w' = unregistered ids w"
proof -
  assume s: "sameRegistry w w'"
  have "filter (\<lambda>(p, i). map_of (p_s (pinias w' ! p)) i = None) (List.product [0..<length (pinias w)] ids) =
        filter (\<lambda>(p, i). map_of (p_s (pinias w ! p)) i = None) (List.product [0..<length (pinias w)] ids)"
    by (rule filter_cong) (auto simp: sameRegistry_facts(3)[OF s])
  then show ?thesis by (simp add: unregistered_def sameRegistry_facts(1)[OF s])
qed

lemma filter_length_mono:
  "(\<forall>x \<in> set xs. P' x \<longrightarrow> P x) \<Longrightarrow> length (filter P' xs) \<le> length (filter P xs)"
  by (induction xs) auto

lemma filter_length_strict:
  "(\<forall>x \<in> set xs. P' x \<longrightarrow> P x) \<Longrightarrow> x \<in> set xs \<Longrightarrow> P x \<Longrightarrow> \<not> P' x \<Longrightarrow>
   length (filter P' xs) < length (filter P xs)"
proof (induction xs)
  case Nil
  then show ?case by simp
next
  case (Cons a xs)
  have m: "length (filter P' xs) \<le> length (filter P xs)"
    using Cons.prems(1) by (intro filter_length_mono) simp
  show ?case
  proof (cases "x = a")
    case True
    then show ?thesis using Cons.prems m by simp
  next
    case False
    then have "length (filter P' xs) < length (filter P xs)"
      using Cons.IH Cons.prems by simp
    then show ?thesis using Cons.prems(1) by auto
  qed
qed

lemma extends_unregistered: "extends w w' \<Longrightarrow> unregistered ids w' \<le> unregistered ids w"
  unfolding unregistered_def extends_def
  by (auto intro!: filter_length_mono) (metis not_Some_eq option.distinct(1))

lemma classify_heap: "\<exists>h. classify s i kp w = w\<lparr>heap := h\<rparr>"
proof (cases kp)
  case (Pair key pr)
  have triv: "w = w\<lparr>heap := heap w\<rparr>" by simp
  show ?thesis
  proof (cases pr)
    case (StateProp v skip)
    then show ?thesis using Pair triv
      by (cases "stateSlot w s") (auto simp: classify_def intro: exI[of _ "heap w"])
  qed (use Pair triv in \<open>auto simp: classify_def intro: exI[of _ "heap w"]\<close>)
qed

lemma fold_classify_heap: "\<exists>h. fold (classify s i) kps w = w\<lparr>heap := h\<rparr>"
proof (induction kps arbitrary: w)
  case Nil
  show ?case by (simp, rule exI[of _ "heap w"], simp)
next
  case (Cons a kps)
  obtain h1 where h1: "classify s i a w = w\<lparr>heap := h1\<rparr>" using classify_heap by blast
  obtain h2 where "fold (classify s i) kps (w\<lparr>heap := h1\<rparr>) = w\<lparr>heap := h1\<rparr>\<lparr>heap := h2\<rparr>"
    using Cons.IH by blast
  then show ?case using h1 by (intro exI[of _ h2]) simp
qed

lemma sameRegistry_heap [simp]: "sameRegistry w (w'\<lparr>heap := h\<rparr>) = sameRegistry w w'"
  by (simp add: sameRegistry_def)

lemma sameRegistry_trace [simp]: "sameRegistry w (w'\<lparr>trace := t\<rparr>) = sameRegistry w w'"
  by (simp add: sameRegistry_def)

lemma sameRegistry_active [simp]: "sameRegistry w (w'\<lparr>activePinia := a\<rparr>) = sameRegistry w w'"
  by (simp add: sameRegistry_def)

lemma sameRegistry_updStore:
  assumes "\<And>st. sp (f st) = sp st" "\<And>st. sid (f st) = sid st"
  shows "sameRegistry w (updStore s f w)"
  unfolding sameRegistry_def updStore_def
  by (simp add: map_update assms) (metis (no_types, lifting) assms list_update_beyond list_update_id map_update not_less nth_map)

lemma sameRegistry_updPinia_stateValue:
  "sameRegistry w (updPinia p (\<lambda>pi. pi\<lparr>stateValue := g pi\<rparr>) w)"
proof -
  have "map p_s ((pinias w)[p := (pinias w ! p)\<lparr>stateValue := g (pinias w ! p)\<rparr>]) = map p_s (pinias w)"
    by (cases "p < length (pinias w)") (simp_all add: map_update list_update_beyond list_update_same_conv)
  then show ?thesis by (simp add: sameRegistry_def updPinia_def)
qed

lemma optionsSetup_same:
  "\<exists>r w'. optionsSetup id' state getters actions p isHot initialState w = Some (Returned r, w') \<and>
          sameRegistry w w' \<and> activePinia w' = activePinia w"
proof -
  define w1 where "w1 = (if initialState = None \<and> (\<not> DEV w \<or> \<not> isHot)
                then (case callState (heap w) state of
                        (h1, a) \<Rightarrow>
                          updPinia p
                            (\<lambda>pi. pi\<lparr>stateValue := AList.update id' a (stateValue pi)\<rparr>)
                            (w\<lparr>heap := h1\<rparr>))
                else w)"
  have s1: "sameRegistry w w1 \<and> activePinia w1 = activePinia w"
  proof (cases "initialState = None \<and> (\<not> DEV w \<or> \<not> isHot)")
    case True
    obtain h1 a where c: "callState (heap w) state = (h1, a)" by (cases "callState (heap w) state")
    have "sameRegistry (w\<lparr>heap := h1\<rparr>) (updPinia p
                            (\<lambda>pi. pi\<lparr>stateValue := AList.update id' a (stateValue pi)\<rparr>)
                            (w\<lparr>heap := h1\<rparr>))"
      by (rule sameRegistry_updPinia_stateValue)
    then show ?thesis using True c by (simp add: w1_def sameRegistry_def updPinia_def)
  next
    case False
    then show ?thesis by (auto simp: w1_def sameRegistry_refl)
  qed
  obtain w2 source where ws: "(w2, source) =
            (if DEV w1 \<and> isHot
             then (case callState (heap w1) state of (h2, a) \<Rightarrow> (w1\<lparr>heap := h2\<rparr>, Some a))
             else (w1, map_of (stateValue (pinias w1 ! p)) id'))"
    by (metis surj_pair)
  have s2: "sameRegistry w1 w2 \<and> activePinia w2 = activePinia w1"
    using ws by (auto simp: sameRegistry_refl split: if_splits prod.splits)
  have "\<exists>r t. optionsSetup id' state getters actions p isHot initialState w =
          Some (Returned r, w2\<lparr>trace := t\<rparr>)"
    using ws unfolding optionsSetup_def Let_def w1_def[symmetric]
    by (cases "DEV w1 \<and> isHot") (auto split: prod.splits)
  then show ?thesis using s1 s2 sameRegistry_trans by fastforce
qed

lemma registerPartialStore_facts:
  assumes p: "p < length (pinias w)" and u: "map_of (p_s (pinias w ! p)) id' = None"
  shows "extends w (registerPartialStore id' state p isHot isOptions w)"
    and "wfRegistry w \<Longrightarrow> wfRegistry (registerPartialStore id' state p isHot isOptions w)"
    and "map_of (p_s (pinias (registerPartialStore id' state p isHot isOptions w) ! p)) id' =
           Some (length (stores w))"
    and "length (stores (registerPartialStore id' state p isHot isOptions w)) = Suc (length (stores w))"
    and "activePinia (registerPartialStore id' state p isHot isOptions w) = activePinia w"
    and "id' \<in> set ids \<Longrightarrow>
           Suc (unregistered ids (registerPartialStore id' state p isHot isOptions w)) \<le> unregistered ids w"
proof -
  let ?wr = "registerPartialStore id' state p isHot isOptions w"
  have ps: "\<And>q. q < length (pinias w) \<Longrightarrow>
              p_s (pinias ?wr ! q) =
                (if q = p then AList.update id' (length (stores w)) (p_s (pinias w ! p))
                 else p_s (pinias w ! q))"
    using p by (auto simp: registerPartialStore_def Let_def updPinia_def nth_list_update)
  have lp: "length (pinias ?wr) = length (pinias w)"
    by (simp add: registerPartialStore_def Let_def updPinia_def)
  obtain hs where st: "stores ?wr = stores w @
                 [\<lparr>sid = id', sp = p, isListening = False, isSyncListening = False,
                   subscriptions = [], actionSubscriptions = [], activeListener = None,
                   hot = isHot, isOptionsStore = isOptions, hotState = hs,
                   stateInit = state, members = []\<rparr>]"
    by (simp add: registerPartialStore_def Let_def updPinia_def)
  have mo: "\<And>q i. q < length (pinias w) \<Longrightarrow>
              map_of (p_s (pinias ?wr ! q)) i =
                (if q = p \<and> i = id' then Some (length (stores w)) else map_of (p_s (pinias w ! q)) i)"
    using ps by (auto simp: update_conv')
  show e: "extends w ?wr"
    unfolding extends_def using lp mo u by (auto simp: st nth_append)
  show "wfRegistry w \<Longrightarrow> wfRegistry ?wr"
    unfolding wfRegistry_def lp
  proof (intro allI impI)
    fix q i s assume wf: "\<forall>p<length (pinias w). \<forall>i s. map_of (p_s (pinias w ! p)) i = Some s \<longrightarrow>
               s < length (stores w) \<and> sp (stores w ! s) = p \<and> sid (stores w ! s) = i"
      and q: "q < length (pinias w)" and m: "map_of (p_s (pinias ?wr ! q)) i = Some s"
    show "s < length (stores ?wr) \<and> sp (stores ?wr ! s) = q \<and> sid (stores ?wr ! s) = i"
    proof (cases "q = p \<and> i = id'")
      case True
      then have "s = length (stores w)" using m mo[OF q] by simp
      then show ?thesis using True by (simp add: st)
    next
      case False
      then have "map_of (p_s (pinias w ! q)) i = Some s" using m mo[OF q] by auto
      then have "s < length (stores w) \<and> sp (stores w ! s) = q \<and> sid (stores w ! s) = i"
        using wf q by blast
      then show ?thesis by (simp add: st nth_append)
    qed
  qed
  show "map_of (p_s (pinias ?wr ! p)) id' = Some (length (stores w))" using mo[OF p] by simp
  show "length (stores ?wr) = Suc (length (stores w))" by (simp add: st)
  show "activePinia ?wr = activePinia w" by (simp add: registerPartialStore_def Let_def updPinia_def)
  show "id' \<in> set ids \<Longrightarrow> Suc (unregistered ids ?wr) \<le> unregistered ids w"
  proof -
    assume i: "id' \<in> set ids"
    have "length (filter (\<lambda>(q, i). map_of (p_s (pinias ?wr ! q)) i = None)
               (List.product [0..<length (pinias w)] ids))
        < length (filter (\<lambda>(q, i). map_of (p_s (pinias w ! q)) i = None)
               (List.product [0..<length (pinias w)] ids))"
    proof (rule filter_length_strict[where x = "(p, id')"])
      show "\<forall>x\<in>set (List.product [0..<length (pinias w)] ids).
         (case x of (q, i) \<Rightarrow> map_of (p_s (pinias ?wr ! q)) i = None) \<longrightarrow>
         (case x of (q, i) \<Rightarrow> map_of (p_s (pinias w ! q)) i = None)"
        using mo by (auto split: if_splits)
      show "(p, id') \<in> set (List.product [0..<length (pinias w)] ids)" using p i by simp
      show "case (p, id') of (q, i) \<Rightarrow> map_of (p_s (pinias w ! q)) i = None" using u by simp
      show "\<not> (case (p, id') of (q, i) \<Rightarrow> map_of (p_s (pinias ?wr ! q)) i = None)"
        using mo[OF p] by simp
    qed
    then show ?thesis by (simp add: unregistered_def lp)
  qed
qed

lemma same_wfWorld:
  assumes "sameRegistry w w'" and "activePinia w' = activePinia w" and "wfWorld injected w"
  shows "wfWorld injected w'"
  using assms sameRegistry_wf[OF assms(1)] sameRegistry_facts(1)[OF assms(1)]
  by (auto simp: wfWorld_def validActive_def split: option.splits)

lemma updStore_active [simp]: "activePinia (updStore s f w) = activePinia w"
  by (simp add: updStore_def)

lemma createSetupStore_cases:
  assumes ok: "\<not> (DEV w \<and> \<not> p_e_active (pinias w ! p))"
  shows "(createSetupStore id' setup state hydrate p isHot isOptions w = None \<longleftrightarrow>
            setup (registerPartialStore id' state p isHot isOptions w) = None) \<and>
         (\<forall>r w'. createSetupStore id' setup state hydrate p isHot isOptions w = Some (r, w') \<longrightarrow>
            (\<exists>r5 w5. setup (registerPartialStore id' state p isHot isOptions w) = Some (r5, w5) \<and>
                sameRegistry w5 w' \<and> activePinia w' = activePinia w5 \<and>
                (case r5 of Thrown e \<Rightarrow> r = Thrown e | Returned ss \<Rightarrow> r = Returned (length (stores w)))))"
proof -
  let ?wr = "registerPartialStore id' state p isHot isOptions w"
  have c: "(DEV w \<and> \<not> p_e_active (pinias w ! p)) = False" using ok by simp
  show ?thesis
  proof (cases "setup ?wr")
    case None
    then show ?thesis by (simp add: createSetupStore_def Let_def c)
  next
    case (Some a)
    obtain r5 w5 where a: "a = (r5, w5)" by (cases a)
    show ?thesis
    proof (cases r5)
      case (Thrown e)
      then show ?thesis using Some a
        by (simp add: createSetupStore_def Let_def sameRegistry_refl c)
    next
      case (Returned ss)
      define s where "s = length (stores w)"
      define i where "i = map_of (stateValue (pinias w ! p)) id'"
      obtain h where h: "fold (classify s i) ss w5 = w5\<lparr>heap := h\<rparr>"
        using fold_classify_heap by blast
      define w7 where "w7 = updStore s
                           (\<lambda>st. st\<lparr>members := map (\<lambda>(k, pr). (k, memberOf pr)) ss\<rparr>)
                           (fold (classify s i) ss w5)"
      define w8 where "w8 = (case (i, hydrate) of
                            (Some a0, Some hy) \<Rightarrow>
                              if isOptions
                              then w7\<lparr>heap := hy (getState w7 s) (Ref a0) (heap w7)\<rparr>
                              else w7
                          | _ \<Rightarrow> w7)"
      define w9 where "w9 = updStore s (\<lambda>st. st\<lparr>isListening := True, isSyncListening := True\<rparr>) w8"
      have r: "createSetupStore id' setup state hydrate p isHot isOptions w = Some (Returned s, w9)"
        unfolding w9_def w8_def w7_def s_def i_def using Some a Returned
        by (simp add: createSetupStore_def Let_def c)
      have s7: "sameRegistry w5 w7 \<and> activePinia w7 = activePinia w5"
        unfolding w7_def h using sameRegistry_updStore[of "\<lambda>st. st\<lparr>members := map (\<lambda>(k, pr). (k, memberOf pr)) ss\<rparr>" "w5\<lparr>heap := h\<rparr>" s]
        by (simp add: sameRegistry_def)
      have s8: "sameRegistry w7 w8 \<and> activePinia w8 = activePinia w7"
        unfolding w8_def by (auto simp: sameRegistry_refl split: option.splits)
      have s9: "sameRegistry w8 w9 \<and> activePinia w9 = activePinia w8"
        unfolding w9_def using sameRegistry_updStore[of "\<lambda>st. st\<lparr>isListening := True, isSyncListening := True\<rparr>" w8 s]
        by simp
      have "sameRegistry w5 w9 \<and> activePinia w9 = activePinia w5"
        using s7 s8 s9 sameRegistry_trans by metis
      then show ?thesis using r Some a Returned by (simp add: s_def)
    qed
  qed
qed

lemma wfWorld_trace [simp]: "wfWorld injected (w\<lparr>trace := t\<rparr>) = wfWorld injected w"
  by (simp add: wfWorld_def wfRegistry_def validActive_def split: option.splits)

lemma wfWorld_heap [simp]: "wfWorld injected (w\<lparr>heap := h\<rparr>) = wfWorld injected w"
  by (simp add: wfWorld_def wfRegistry_def validActive_def split: option.splits)

lemma unregistered_trace [simp]: "unregistered ids (w\<lparr>trace := t\<rparr>) = unregistered ids w"
  by (simp add: unregistered_def)

lemma unregistered_heap [simp]: "unregistered ids (w\<lparr>heap := h\<rparr>) = unregistered ids w"
  by (simp add: unregistered_def)

lemma unregistered_active [simp]: "unregistered ids (w\<lparr>activePinia := a\<rparr>) = unregistered ids w"
  by (simp add: unregistered_def)

lemma extends_trace [simp]: "extends w (w'\<lparr>trace := t\<rparr>) = extends w w'"
  by (simp add: extends_def)

lemma extends_heap [simp]: "extends w (w'\<lparr>heap := h\<rparr>) = extends w w'"
  by (simp add: extends_def)

lemma runCalls_sound:
  assumes use: "\<And>acc w r w'. wfWorld injected w \<Longrightarrow> fst acc \<in> set ids \<Longrightarrow>
                  use acc None w = Some (r, w') \<Longrightarrow> wfWorld injected w' \<and> extends w w'"
    and ds: "fst ` set ds \<subseteq> set ids"
  shows "wfWorld injected w \<Longrightarrow> runCalls use ds me cs w = Some (r, w') \<Longrightarrow>
         wfWorld injected w' \<and> extends w w'"
proof (induction cs arbitrary: w)
  case Nil
  then show ?case by (simp add: extends_refl)
next
  case (Cons c cs)
  show ?case
  proof (cases "map_of ds c")
    case None
    then show ?thesis using Cons.prems by (auto simp: extends_refl)
  next
    case (Some d)
    then have cin: "c \<in> set ids" using ds map_of_SomeD by fastforce
    show ?thesis
    proof (cases "use (c, d) None w")
      case None
      then show ?thesis using Cons.prems Some by simp
    next
      case (Some a)
      obtain r1 w1 where a: "a = (r1, w1)" by (cases a)
      have g1: "wfWorld injected w1 \<and> extends w w1"
        using use[of w "(c, d)" r1 w1] Cons.prems(1) cin Some a by simp
      show ?thesis
      proof (cases r1)
        case (Thrown e)
        then show ?thesis using Cons.prems \<open>map_of ds c = Some d\<close> Some a g1 by simp
      next
        case (Returned x)
        let ?w2 = "w1\<lparr>trace := trace w1 @ [AccessorReturned me c x]\<rparr>"
        have run: "runCalls use ds me cs ?w2 = Some (r, w')"
          using Cons.prems \<open>map_of ds c = Some d\<close> Some a Returned by simp
        have "wfWorld injected w' \<and> extends ?w2 w'"
          using Cons.IH[OF _ run] g1 by simp
        moreover have "extends w ?w2" using g1 by simp
        ultimately show ?thesis using extends_trans by blast
      qed
    qed
  qed
qed

lemma runCalls_total:
  assumes use: "\<And>acc w r w'. wfWorld injected w \<Longrightarrow> fst acc \<in> set ids \<Longrightarrow>
                  use acc None w = Some (r, w') \<Longrightarrow> wfWorld injected w' \<and> extends w w'"
    and total: "\<And>acc w. wfWorld injected w \<Longrightarrow> fst acc \<in> set ids \<Longrightarrow>
                  unregistered ids w \<le> m \<Longrightarrow> use acc None w \<noteq> None"
    and ds: "fst ` set ds \<subseteq> set ids"
  shows "wfWorld injected w \<Longrightarrow> unregistered ids w \<le> m \<Longrightarrow> runCalls use ds me cs w \<noteq> None"
proof (induction cs arbitrary: w)
  case Nil
  then show ?case by simp
next
  case (Cons c cs)
  show ?case
  proof (cases "map_of ds c")
    case None
    then show ?thesis by simp
  next
    case (Some d)
    then have cin: "c \<in> set ids" using ds map_of_SomeD by fastforce
    obtain r1 w1 where a: "use (c, d) None w = Some (r1, w1)"
      using total[of w "(c, d)"] Cons.prems cin by fastforce
    have g1: "wfWorld injected w1 \<and> extends w w1"
      using use[of w "(c, d)" r1 w1] Cons.prems(1) cin a by simp
    show ?thesis
    proof (cases r1)
      case (Thrown e)
      then show ?thesis using Some a by simp
    next
      case (Returned x)
      let ?w2 = "w1\<lparr>trace := trace w1 @ [AccessorReturned me c x]\<rparr>"
      have "unregistered ids ?w2 \<le> m"
        using extends_unregistered[of w w1 ids] g1 Cons.prems(2) by simp
      then have "runCalls use ds me cs ?w2 \<noteq> None"
        using Cons.IH[of ?w2] g1 by simp
      then show ?thesis using Some a Returned by simp
    qed
  qed
qed

lemma runSetup_sound:
  assumes use: "\<And>acc w r w'. wfWorld injected w \<Longrightarrow> fst acc \<in> set ids \<Longrightarrow>
                  use acc None w = Some (r, w') \<Longrightarrow> wfWorld injected w' \<and> extends w w'"
    and ds: "fst ` set ds \<subseteq> set ids"
    and g: "wfWorld injected w"
    and run: "runSetup use ds me sc w = Some (r, w')"
  shows "wfWorld injected w' \<and> extends w w'"
proof (cases "runCalls use ds me (accessorCalls sc) w")
  case None
  then show ?thesis using run by (simp add: runSetup_def)
next
  case (Some a)
  obtain r1 w1 where a: "a = (r1, w1)" by (cases a)
  have g1: "wfWorld injected w1 \<and> extends w w1"
    using runCalls_sound[of injected ids use ds w me "accessorCalls sc" r1 w1] use ds g Some a
    by blast
  show ?thesis
    using run Some a g1 by (cases r1) (auto simp: runSetup_def split: prod.splits)
qed

lemma runSetup_total:
  assumes use: "\<And>acc w r w'. wfWorld injected w \<Longrightarrow> fst acc \<in> set ids \<Longrightarrow>
                  use acc None w = Some (r, w') \<Longrightarrow> wfWorld injected w' \<and> extends w w'"
    and total: "\<And>acc w. wfWorld injected w \<Longrightarrow> fst acc \<in> set ids \<Longrightarrow>
                  unregistered ids w \<le> m \<Longrightarrow> use acc None w \<noteq> None"
    and ds: "fst ` set ds \<subseteq> set ids"
    and g: "wfWorld injected w" and u: "unregistered ids w \<le> m"
  shows "runSetup use ds me sc w \<noteq> None"
proof -
  have "runCalls use ds me (accessorCalls sc) w \<noteq> None"
    using runCalls_total[of injected ids use m ds w me "accessorCalls sc"] use total ds g u
    by blast
  then show ?thesis
    by (auto simp: runSetup_def split: option.splits res.splits prod.splits)
qed

lemma createSetupStore_sound:
  assumes g: "wfWorld injected w" and p: "p < length (pinias w)"
    and u: "map_of (p_s (pinias w ! p)) id' = None"
    and su: "\<And>w0 r0 w0'. wfWorld injected w0 \<Longrightarrow> setup w0 = Some (r0, w0') \<Longrightarrow>
                  wfWorld injected w0' \<and> extends w0 w0'"
    and run: "createSetupStore id' setup state hydrate p isHot isOptions w = Some (r, w')"
  shows "wfWorld injected w' \<and> extends w w' \<and>
         (\<forall>x. r = Returned x \<longrightarrow>
            x = length (stores w) \<and> map_of (p_s (pinias w' ! p)) id' = Some (length (stores w)))"
proof (cases "DEV w \<and> \<not> p_e_active (pinias w ! p)")
  case True
  then show ?thesis using run g by (auto simp: createSetupStore_def extends_refl)
next
  case False
  let ?wr = "registerPartialStore id' state p isHot isOptions w"
  note f = registerPartialStore_facts[OF p u, where state = state and isHot = isHot and isOptions = isOptions]
  obtain r5 w5 where s5: "setup ?wr = Some (r5, w5)" and same: "sameRegistry w5 w'"
    and act: "activePinia w' = activePinia w5"
    and r5: "case r5 of Thrown e \<Rightarrow> r = Thrown e | Returned ss \<Rightarrow> r = Returned (length (stores w))"
    using createSetupStore_cases[OF False, of id' "setup" state hydrate isHot isOptions] run by blast
  have lp: "length (pinias ?wr) = length (pinias w)" using f(1) by (simp add: extends_def)
  have gr: "wfWorld injected ?wr"
    using g f(2) f(5) lp by (auto simp: wfWorld_def validActive_def split: option.splits)
  have g5: "wfWorld injected w5 \<and> extends ?wr w5" using su[OF gr s5] .
  have g': "wfWorld injected w'" using same_wfWorld[OF same act] g5 by simp
  have e': "extends ?wr w'" using g5 sameRegistry_extends[OF same] extends_trans by blast
  have ew: "extends w w'" using f(1) e' extends_trans by blast
  have "map_of (p_s (pinias w' ! p)) id' = Some (length (stores w))"
    using e' f(3) p lp by (simp add: extends_def)
  then show ?thesis using g' ew r5 by (cases r5) auto
qed

lemma createSetupStore_total:
  assumes g: "wfWorld injected w" and p: "p < length (pinias w)"
    and u: "map_of (p_s (pinias w ! p)) id' = None" and i: "id' \<in> set ids"
    and total: "\<And>w0. wfWorld injected w0 \<Longrightarrow> unregistered ids w0 < unregistered ids w \<Longrightarrow>
                  setup w0 \<noteq> None"
  shows "createSetupStore id' setup state hydrate p isHot isOptions w \<noteq> None"
proof (cases "DEV w \<and> \<not> p_e_active (pinias w ! p)")
  case True
  then show ?thesis by (simp add: createSetupStore_def)
next
  case False
  let ?wr = "registerPartialStore id' state p isHot isOptions w"
  note f = registerPartialStore_facts[OF p u, where state = state and isHot = isHot and isOptions = isOptions]
  have lp: "length (pinias ?wr) = length (pinias w)" using f(1) by (simp add: extends_def)
  have gr: "wfWorld injected ?wr"
    using g f(2) f(5) lp by (auto simp: wfWorld_def validActive_def split: option.splits)
  have "unregistered ids ?wr < unregistered ids w" using f(6)[OF i] by simp
  then have "setup ?wr \<noteq> None" using total[OF gr] by simp
  then show ?thesis
    using createSetupStore_cases[OF False, of id' "setup" state hydrate isHot isOptions] by simp
qed

lemma optionsSetup_sound:
  assumes "wfWorld injected w0"
    and "optionsSetup id' state getters actions p isHot initialState w0 = Some (r0, w0')"
  shows "wfWorld injected w0' \<and> extends w0 w0'"
  using optionsSetup_same[of id' state getters actions p isHot initialState w0] assms
    same_wfWorld sameRegistry_extends by fastforce

lemma optionsSetup_total: "optionsSetup id' state getters actions p isHot initialState w0 \<noteq> None"
  using optionsSetup_same[of id' state getters actions p isHot initialState w0] by auto

lemma useStore_Suc:
  "useStore (Suc n) ds injected acc parg w =
     (let w1 = activated parg injected w
      in case activePinia w1 of
           None \<Rightarrow> Some (Thrown (if DEV w1 then NoActivePinia else TypeError), w1)
         | Some p \<Rightarrow>
             (if fst acc \<notin> set (map fst (p_s (pinias w1 ! p)))
              then (case build n ds injected acc p w1 of
                      None \<Rightarrow> None
                    | Some (Thrown e, w2) \<Rightarrow> Some (Thrown e, w2)
                    | Some (Returned _, w2) \<Rightarrow>
                        Some (Returned (map_of (p_s (pinias w2 ! p)) (fst acc)), w2))
              else Some (Returned (map_of (p_s (pinias w1 ! p)) (fst acc)), w1)))"
  unfolding activated_def build_def useStore.simps by (rule refl)

lemma activated_facts:
  assumes g: "wfWorld injected w"
    and pa: "case parg of Some p \<Rightarrow> p < length (pinias w) | None \<Rightarrow> True"
  shows "sameRegistry w (activated parg injected w)"
    and "wfWorld injected (activated parg injected w)"
    and "activePinia (activated parg injected w) = resolve parg injected w"
    and "unregistered ids (activated parg injected w) = unregistered ids w"
    and "extends w (activated parg injected w)"
    and "pinias (activated parg injected w) = pinias w"
    and "stores (activated parg injected w) = stores w"
proof -
  show s: "sameRegistry w (activated parg injected w)"
    by (auto simp: activated_def sameRegistry_refl split: option.splits)
  show "wfWorld injected (activated parg injected w)"
    using g pa by (auto simp: activated_def wfWorld_def wfRegistry_def validActive_def split: option.splits)
  show "activePinia (activated parg injected w) = resolve parg injected w"
    by (auto simp: activated_def resolve_def split: option.splits)
  show "unregistered ids (activated parg injected w) = unregistered ids w"
    by (auto simp: activated_def split: option.splits)
  show "extends w (activated parg injected w)"
    using sameRegistry_extends[OF s] .
  show "pinias (activated parg injected w) = pinias w"
    by (auto simp: activated_def split: option.splits)
  show "stores (activated parg injected w) = stores w"
    by (auto simp: activated_def split: option.splits)
qed

lemma build_sound:
  assumes use: "\<forall>acc w r w'. wfWorld injected w \<longrightarrow> fst acc \<in> set ids \<longrightarrow>
                  useStore n ds injected acc None w = Some (r, w') \<longrightarrow>
                  wfWorld injected w' \<and> extends w w'"
    and ds: "fst ` set ds \<subseteq> set ids"
    and g: "wfWorld injected w" and p: "p < length (pinias w)"
    and u: "map_of (p_s (pinias w ! p)) (fst acc) = None"
    and run: "build n ds injected acc p w = Some (r, w')"
  shows "wfWorld injected w' \<and> extends w w' \<and>
         (\<forall>x. r = Returned x \<longrightarrow>
            x = length (stores w) \<and>
            map_of (p_s (pinias w' ! p)) (fst acc) = Some (length (stores w)))"
proof (cases "snd acc")
  case (SetupDecl sc)
  have su: "\<And>w0 r0 w0'. wfWorld injected w0 \<Longrightarrow>
              runSetup (useStore n ds injected) ds (fst acc) sc w0 = Some (r0, w0') \<Longrightarrow>
              wfWorld injected w0' \<and> extends w0 w0'"
    using runSetup_sound[of injected ids "useStore n ds injected" ds] use[rule_format] ds by blast
  show ?thesis
    using createSetupStore_sound[OF g p u su] run SetupDecl by (simp add: build_def)
next
  case (OptionsDecl state getters actions hydrate)
  show ?thesis
    using createSetupStore_sound[OF g p u optionsSetup_sound] run OptionsDecl
    by (simp add: build_def createOptionsStore_def)
qed

lemma build_total:
  assumes use: "\<forall>acc w r w'. wfWorld injected w \<longrightarrow> fst acc \<in> set ids \<longrightarrow>
                  useStore n ds injected acc None w = Some (r, w') \<longrightarrow>
                  wfWorld injected w' \<and> extends w w'"
    and total: "\<forall>acc w. wfWorld injected w \<longrightarrow> fst acc \<in> set ids \<longrightarrow>
                  unregistered ids w < n \<longrightarrow> useStore n ds injected acc None w \<noteq> None"
    and ds: "fst ` set ds \<subseteq> set ids"
    and g: "wfWorld injected w" and p: "p < length (pinias w)"
    and u: "map_of (p_s (pinias w ! p)) (fst acc) = None"
    and i: "fst acc \<in> set ids"
    and m: "unregistered ids w \<le> n"
  shows "build n ds injected acc p w \<noteq> None"
proof (cases "snd acc")
  case (SetupDecl sc)
  have su: "\<And>w0. wfWorld injected w0 \<Longrightarrow> unregistered ids w0 < unregistered ids w \<Longrightarrow>
              runSetup (useStore n ds injected) ds (fst acc) sc w0 \<noteq> None"
  proof -
    fix w0 assume g0: "wfWorld injected w0" and u0: "unregistered ids w0 < unregistered ids w"
    define k where "k = unregistered ids w0"
    have t: "\<And>acc w. wfWorld injected w \<Longrightarrow> fst acc \<in> set ids \<Longrightarrow>
                  unregistered ids w \<le> k \<Longrightarrow> useStore n ds injected acc None w \<noteq> None"
      using total[rule_format] u0 m by (simp add: k_def)
    show "runSetup (useStore n ds injected) ds (fst acc) sc w0 \<noteq> None"
      using runSetup_total[of injected ids "useStore n ds injected" k ds w0 "fst acc" sc]
        use[rule_format] t ds g0 by (simp add: k_def)
  qed
  show ?thesis
    using createSetupStore_total[OF g p u i su] SetupDecl by (simp add: build_def)
next
  case (OptionsDecl state getters actions hydrate)
  show ?thesis
    using createSetupStore_total[OF g p u i optionsSetup_total] OptionsDecl
    by (simp add: build_def createOptionsStore_def)
qed

lemma useStore_invariant:
  assumes ds: "fst ` set ds \<subseteq> set ids"
  shows "wfWorld injected w \<Longrightarrow>
         (case parg of Some p \<Rightarrow> p < length (pinias w) | None \<Rightarrow> True) \<Longrightarrow>
         fst acc \<in> set ids \<Longrightarrow>
         (\<forall>r w'. useStore n ds injected acc parg w = Some (r, w') \<longrightarrow>
            wfWorld injected w' \<and> extends w w' \<and>
            (\<forall>x. r = Returned x \<longrightarrow>
               (\<exists>p s. resolve parg injected w = Some p \<and> x = Some s \<and>
                      map_of (p_s (pinias w' ! p)) (fst acc) = Some s \<and>
                      (map_of (p_s (pinias w ! p)) (fst acc) = None \<longrightarrow>
                         s = length (stores w))))) \<and>
         (unregistered ids w < n \<longrightarrow> useStore n ds injected acc parg w \<noteq> None)"
proof (induction n arbitrary: acc parg w)
  case 0
  then show ?case by simp
next
  case (Suc n)
  let ?w1 = "activated parg injected w"
  note a = activated_facts[OF Suc.prems(1) Suc.prems(2)]
  have use: "\<forall>acc w r w'. wfWorld injected w \<longrightarrow> fst acc \<in> set ids \<longrightarrow>
                  useStore n ds injected acc None w = Some (r, w') \<longrightarrow>
                  wfWorld injected w' \<and> extends w w'"
    using Suc.IH[where parg = None] by simp
  have total: "\<forall>acc w. wfWorld injected w \<longrightarrow> fst acc \<in> set ids \<longrightarrow>
                  unregistered ids w < n \<longrightarrow> useStore n ds injected acc None w \<noteq> None"
    using Suc.IH[where parg = None] by simp
  show ?case
  proof (cases "activePinia ?w1")
    case None
    then show ?thesis using a(2) a(5) by (simp add: useStore_Suc Let_def del: useStore.simps)
  next
    case (Some p)
    have p: "p < length (pinias ?w1)" using a(2) Some by (simp add: wfWorld_def validActive_def)
    have rs: "resolve parg injected w = Some p" using a(3) Some by simp
    show ?thesis
    proof (cases "fst acc \<in> set (map fst (p_s (pinias ?w1 ! p)))")
      case True
      then obtain s where "map_of (p_s (pinias ?w1 ! p)) (fst acc) = Some s"
        by (metis map_of_eq_None_iff not_Some_eq set_map)
      then show ?thesis using True Some a(2) a(5) a(6) rs
        by (simp add: useStore_Suc Let_def del: useStore.simps)
    next
      case False
      then have u: "map_of (p_s (pinias ?w1 ! p)) (fst acc) = None"
        by (simp add: map_of_eq_None_iff)
      have sound: "\<And>r w'. build n ds injected acc p ?w1 = Some (r, w') \<Longrightarrow>
                     wfWorld injected w' \<and> extends w w' \<and>
                     (\<forall>x. r = Returned x \<longrightarrow>
                        map_of (p_s (pinias w' ! p)) (fst acc) = Some (length (stores ?w1)))"
        using build_sound[OF use ds a(2) p u] a(5) extends_trans by blast
      have tot: "unregistered ids w < Suc n \<Longrightarrow> build n ds injected acc p ?w1 \<noteq> None"
        using build_total[OF use total ds a(2) p u Suc.prems(3)] a(4) by simp
      show ?thesis
      proof (cases "build n ds injected acc p ?w1")
        case None
        then show ?thesis using tot False Some by (auto simp: useStore_Suc Let_def simp del: useStore.simps)
      next
        case b: (Some y)
        obtain r1 w2 where y: "y = (r1, w2)" by (cases y)
        show ?thesis using sound[of r1 w2] b y False Some rs a(7)
          by (cases r1) (auto simp: useStore_Suc Let_def simp del: useStore.simps)
      qed
    qed
  qed
qed

lemma useStore_sound:
  assumes "wfWorld injected w"
    and "case parg of Some p \<Rightarrow> p < length (pinias w) | None \<Rightarrow> True"
    and "useStore n ds injected acc parg w = Some (r, w')"
  shows "wfWorld injected w' \<and> extends w w' \<and>
         (\<forall>x. r = Returned x \<longrightarrow>
            (\<exists>p s. resolve parg injected w = Some p \<and> x = Some s \<and>
                   map_of (p_s (pinias w' ! p)) (fst acc) = Some s \<and>
                   (map_of (p_s (pinias w ! p)) (fst acc) = None \<longrightarrow> s = length (stores w))))"
proof -
  have "fst ` set ds \<subseteq> set (fst acc # map fst ds)" by auto
  from useStore_invariant[OF this assms(1) assms(2), of acc n] assms(3)
  show ?thesis by simp
qed

lemma useStore_total:
  assumes "wfWorld injected w"
    and "case parg of Some p \<Rightarrow> p < length (pinias w) | None \<Rightarrow> True"
    and "pending ds (fst acc) w < n"
  shows "useStore n ds injected acc parg w \<noteq> None"
proof -
  have s: "fst ` set ds \<subseteq> set (remdups (fst acc # map fst ds))" by auto
  have i: "fst acc \<in> set (remdups (fst acc # map fst ds))" by simp
  from useStore_invariant[OF s assms(1) assms(2) i, of n] assms(3)
  show ?thesis unfolding pending_def by blast
qed

lemma registerPartialStore_store:
  "sid (stores (registerPartialStore id' state p isHot isOptions w) ! length (stores w)) = id' \<and>
   sp (stores (registerPartialStore id' state p isHot isOptions w) ! length (stores w)) = p \<and>
   \<not> isListening (stores (registerPartialStore id' state p isHot isOptions w) ! length (stores w)) \<and>
   subscriptions (stores (registerPartialStore id' state p isHot isOptions w) ! length (stores w)) = [] \<and>
   actionSubscriptions (stores (registerPartialStore id' state p isHot isOptions w) ! length (stores w)) = [] \<and>
   members (stores (registerPartialStore id' state p isHot isOptions w) ! length (stores w)) = []"
  by (simp add: registerPartialStore_def Let_def updPinia_def)

lemma useStore_registered:
  assumes "map_of (p_s (pinias w ! p)) (fst acc) = Some s"
  shows "useStore (Suc m) ds injected acc (Some p) w =
           Some (Returned (Some s), w\<lparr>activePinia := Some p\<rparr>)"
proof -
  have "fst acc \<in> set (map fst (p_s (pinias w ! p)))"
    using assms by (metis map_of_eq_None_iff option.distinct(1) set_map)
  then show ?thesis using assms by (simp add: Let_def)
qed

lemma extends_pending: "extends w w' \<Longrightarrow> pending ds i w' \<le> pending ds i w"
  by (simp add: pending_def extends_unregistered)

lemma wfWorld_partiallyBuilt:
  assumes g: "wfWorld injected w" and p: "p < length (pinias w)"
    and u: "map_of (p_s (pinias w ! p)) id' = None"
  shows "wfWorld injected (partiallyBuilt id' p w)"
    and "extends w (partiallyBuilt id' p w)"
    and "map_of (p_s (pinias (partiallyBuilt id' p w) ! p)) id' = Some (length (stores w))"
proof -
  let ?w1 = "w\<lparr>activePinia := Some p\<rparr>"
  have g1: "wfWorld injected ?w1"
    using g p by (auto simp: wfWorld_def wfRegistry_def validActive_def split: option.splits)
  have p1: "p < length (pinias ?w1)" and u1: "map_of (p_s (pinias ?w1 ! p)) id' = None"
    using p u by simp_all
  note f = registerPartialStore_facts[OF p1 u1, where state = None and isHot = False
      and isOptions = False]
  have lp: "length (pinias (partiallyBuilt id' p w)) = length (pinias w)"
    using f(1) by (simp add: extends_def partiallyBuilt_def)
  show "wfWorld injected (partiallyBuilt id' p w)"
    using g1 f(2) f(5) lp
    by (auto simp: wfWorld_def validActive_def partiallyBuilt_def split: option.splits)
  have "extends w ?w1" by (simp add: extends_def)
  then show "extends w (partiallyBuilt id' p w)"
    using f(1) extends_trans unfolding partiallyBuilt_def by blast
  show "map_of (p_s (pinias (partiallyBuilt id' p w) ! p)) id' = Some (length (stores w))"
    using f(3) by (simp add: partiallyBuilt_def)
qed

text \<open>
  C9. Let the accessor of a setup store \<open>id'\<close> be called with a registry \<open>p\<close> in which
  the id is not registered (and whose effect scope is active, under \<open>__DEV__\<close>). The
  setup function runs on the world \<open>partiallyBuilt id' p w\<close>, and on no other: the call
  ends, throws or returns as the setup function does on that world. In that world the
  id-to-instance map of the registry already maps the id to the new store, which has its
  id, its registry, empty subscription lists, no member of the setup function yet, and is
  not listening. Every world that accessor calls reach from there is well formed and
  extends it, and in every world that extends it an accessor for this id that resolves
  the same registry returns this store and leaves the world as it is, apart from making
  the registry active: it builds nothing. A call with more fuel than there are pairs of a
  registry and a declared id without a store returns or throws, also when the setup
  functions call each other's accessors in a circle.
\<close>

theorem setup_finds_partial_store:
  assumes g: "wfWorld injected w" and p: "p < length (pinias w)"
    and u: "map_of (p_s (pinias w ! p)) id' = None"
    and ok: "DEV w \<longrightarrow> p_e_active (pinias w ! p)"
  shows "(map_of (p_s (pinias (partiallyBuilt id' p w) ! p)) id' = Some (length (stores w))) \<and>
   (sid (stores (partiallyBuilt id' p w) ! length (stores w)) = id' \<and>
         sp (stores (partiallyBuilt id' p w) ! length (stores w)) = p \<and>
         subscriptions (stores (partiallyBuilt id' p w) ! length (stores w)) = [] \<and>
         actionSubscriptions (stores (partiallyBuilt id' p w) ! length (stores w)) = [] \<and>
         members (stores (partiallyBuilt id' p w) ! length (stores w)) = [] \<and>
         \<not> isListening (stores (partiallyBuilt id' p w) ! length (stores w))) \<and>
   (useStore (Suc n) ds injected (id', SetupDecl sc) (Some p) w = None \<longleftrightarrow>
         runSetup (useStore n ds injected) ds id' sc (partiallyBuilt id' p w) = None) \<and>
   (\<forall>e w5. runSetup (useStore n ds injected) ds id' sc (partiallyBuilt id' p w) =
                   Some (Thrown e, w5) \<longrightarrow>
                 useStore (Suc n) ds injected (id', SetupDecl sc) (Some p) w = Some (Thrown e, w5)) \<and>
   (\<forall>ss w5. runSetup (useStore n ds injected) ds id' sc (partiallyBuilt id' p w) =
                    Some (Returned ss, w5) \<longrightarrow>
                  (\<exists>w'. useStore (Suc n) ds injected (id', SetupDecl sc) (Some p) w =
                          Some (Returned (Some (length (stores w))), w') \<and>
                        sameRegistry w5 w')) \<and>
   (\<forall>m d w0. extends (partiallyBuilt id' p w) w0 \<and> resolve None injected w0 = Some p \<longrightarrow>
           useStore (Suc m) ds injected (id', d) None w0 =
             Some (Returned (Some (length (stores w))), w0\<lparr>activePinia := Some p\<rparr>)) \<and>
   (\<forall>m acc w0 r w0'. wfWorld injected w0 \<and> extends (partiallyBuilt id' p w) w0 \<and>
           useStore m ds injected acc None w0 = Some (r, w0') \<longrightarrow>
           wfWorld injected w0' \<and> extends (partiallyBuilt id' p w) w0') \<and>
   (pending ds id' w \<le> n \<longrightarrow>
         useStore (Suc n) ds injected (id', SetupDecl sc) (Some p) w \<noteq> None)"
proof -
  let ?wr = "partiallyBuilt id' p w"
  let ?w1 = "w\<lparr>activePinia := Some p\<rparr>"
  let ?su = "runSetup (useStore n ds injected) ds id' sc"
  note pb = wfWorld_partiallyBuilt[OF g p u]
  have lp: "length (pinias ?wr) = length (pinias w)" using pb(2) by (simp add: extends_def)
  have pv: "case Some p of Some p \<Rightarrow> p < length (pinias w) | None \<Rightarrow> True" using p by simp
  have nin: "id' \<notin> fst ` set (p_s (pinias w ! p))" using u by (simp add: map_of_eq_None_iff)
  have c: "(DEV ?w1 \<and> \<not> p_e_active (pinias ?w1 ! p)) = False" using ok by simp
  have unf: "useStore (Suc n) ds injected (id', SetupDecl sc) (Some p) w =
               (case createSetupStore id' ?su None None p False False ?w1 of
                  None \<Rightarrow> None
                | Some (Thrown e, w2) \<Rightarrow> Some (Thrown e, w2)
                | Some (Returned _, w2) \<Rightarrow> Some (Returned (map_of (p_s (pinias w2 ! p)) id'), w2))"
    using nin by (simp add: Let_def split: option.splits res.splits prod.splits)
  have c1: "map_of (p_s (pinias ?wr ! p)) id' = Some (length (stores w))" by (rule pb(3))
  have c2: "sid (stores ?wr ! length (stores w)) = id' \<and> sp (stores ?wr ! length (stores w)) = p \<and>
        subscriptions (stores ?wr ! length (stores w)) = [] \<and>
        actionSubscriptions (stores ?wr ! length (stores w)) = [] \<and>
        members (stores ?wr ! length (stores w)) = [] \<and>
        \<not> isListening (stores ?wr ! length (stores w))"
    using registerPartialStore_store[of id' None p False False ?w1]
    by (simp add: partiallyBuilt_def)
  have c3: "useStore (Suc n) ds injected (id', SetupDecl sc) (Some p) w = None \<longleftrightarrow> ?su ?wr = None"
    unfolding unf createSetupStore_def partiallyBuilt_def using ok
    by (auto simp: Let_def split: option.splits res.splits prod.splits)
  have c4: "\<forall>e w5. ?su ?wr = Some (Thrown e, w5) \<longrightarrow>
          useStore (Suc n) ds injected (id', SetupDecl sc) (Some p) w = Some (Thrown e, w5)"
    unfolding unf createSetupStore_def partiallyBuilt_def using ok
    by (auto simp: Let_def)
  have c5: "\<forall>ss w5. ?su ?wr = Some (Returned ss, w5) \<longrightarrow>
          (\<exists>w'. useStore (Suc n) ds injected (id', SetupDecl sc) (Some p) w =
                  Some (Returned (Some (length (stores w))), w') \<and> sameRegistry w5 w')"
  proof (intro allI impI)
    fix ss w5 assume s5: "?su ?wr = Some (Returned ss, w5)"
    then have "useStore (Suc n) ds injected (id', SetupDecl sc) (Some p) w \<noteq> None"
      using c3 by simp
    then obtain r w' where rw: "useStore (Suc n) ds injected (id', SetupDecl sc) (Some p) w = Some (r, w')"
      by fastforce
    then obtain r2 where cr: "createSetupStore id' ?su None None p False False ?w1 = Some (r2, w')"
      unfolding unf by (auto split: option.splits res.splits prod.splits)
    have okk: "\<not> (DEV ?w1 \<and> \<not> p_e_active (pinias ?w1 ! p))" using c by simp
    obtain r5 w5' where a: "?su (registerPartialStore id' None p False False ?w1) = Some (r5, w5')"
        "sameRegistry w5' w'"
        "case r5 of Thrown e \<Rightarrow> r2 = Thrown e | Returned ss \<Rightarrow> r2 = Returned (length (stores ?w1))"
      using createSetupStore_cases[OF okk, of id' ?su None None False False] cr by blast
    have e: "r5 = Returned ss" "w5' = w5" using a(1) s5 by (simp_all add: partiallyBuilt_def)
    then obtain x where r: "r = Returned x" using rw cr a(3) unfolding unf by auto
    have "x = Some (length (stores w))"
      using useStore_sound[OF g pv rw] r u by (auto simp: resolve_def)
    then show "\<exists>w'. useStore (Suc n) ds injected (id', SetupDecl sc) (Some p) w =
                  Some (Returned (Some (length (stores w))), w') \<and> sameRegistry w5 w'"
      using rw r a(2) e by auto
  qed
  have c6: "\<forall>m d w0. extends ?wr w0 \<and> resolve None injected w0 = Some p \<longrightarrow>
           useStore (Suc m) ds injected (id', d) None w0 =
             Some (Returned (Some (length (stores w))), w0\<lparr>activePinia := Some p\<rparr>)"
  proof (intro allI impI)
    fix m d w0 assume a: "extends ?wr w0 \<and> resolve None injected w0 = Some p"
    have reg: "map_of (p_s (pinias w0 ! p)) id' = Some (length (stores w))"
      using a pb(3) p lp by (simp add: extends_def)
    then have inn: "id' \<in> fst ` set (p_s (pinias w0 ! p))"
      by (metis map_of_eq_None_iff option.distinct(1))
    show "useStore (Suc m) ds injected (id', d) None w0 =
             Some (Returned (Some (length (stores w))), w0\<lparr>activePinia := Some p\<rparr>)"
    proof (cases injected)
      case None
      then have "activePinia w0 = Some p" using a by (simp add: resolve_def)
      then show ?thesis using None reg inn by (simp add: Let_def)
    next
      case (Some q)
      then have "q = p" using a by (simp add: resolve_def)
      then show ?thesis using Some reg inn by (simp add: Let_def)
    qed
  qed
  have c7: "\<forall>m acc w0 r w0'. wfWorld injected w0 \<and> extends ?wr w0 \<and>
           useStore m ds injected acc None w0 = Some (r, w0') \<longrightarrow>
           wfWorld injected w0' \<and> extends ?wr w0'"
  proof (intro allI impI)
    fix m acc w0 r w0'
    assume a: "wfWorld injected w0 \<and> extends ?wr w0 \<and>
           useStore m ds injected acc None w0 = Some (r, w0')"
    have "wfWorld injected w0' \<and> extends w0 w0'"
      using useStore_sound[of injected w0 None m ds acc r w0'] a by simp
    then show "wfWorld injected w0' \<and> extends ?wr w0'" using a extends_trans by blast
  qed
  have c8: "pending ds id' w \<le> n \<longrightarrow>
         useStore (Suc n) ds injected (id', SetupDecl sc) (Some p) w \<noteq> None"
    using useStore_total[OF g pv, of ds "(id', SetupDecl sc)" "Suc n"] by simp
  show ?thesis by (rule conjI[OF c1 conjI[OF c2 conjI[OF c3 conjI[OF c4 conjI[OF c5 conjI[OF c6 conjI[OF c7 c8]]]]]]])
qed

theorem setup_finds_partial_store_witness:
  "wfWorld None emptyWorld \<and> 0 < length (pinias emptyWorld) \<and>
   map_of (p_s (pinias emptyWorld ! 0)) ''a'' = None \<and>
   p_e_active (pinias emptyWorld ! 0) \<and>
   pending circularDecls ''a'' emptyWorld = 2 \<and>
   map_of (p_s (pinias (partiallyBuilt ''a'' 0 emptyWorld) ! 0)) ''a'' = Some 0 \<and>
   useStore 3 circularDecls None (''a'', SetupDecl circularA) (Some 0) emptyWorld \<noteq> None \<and>
   fst (the (useStore 3 circularDecls None (''a'', SetupDecl circularA) (Some 0) emptyWorld)) =
     Returned (Some 0) \<and>
   length (stores (snd (the (useStore 3 circularDecls None (''a'', SetupDecl circularA) (Some 0)
                               emptyWorld)))) = 2 \<and>
   trace (snd (the (useStore 3 circularDecls None (''a'', SetupDecl circularA) (Some 0)
                      emptyWorld))) =
     [AccessorReturned ''b'' ''a'' (Some 0), AccessorReturned ''b'' ''b'' (Some 1),
      AccessorReturned ''a'' ''b'' (Some 1)]"
proof -
  have h1: "wfWorld None emptyWorld"
    by (auto simp: wfWorld_def wfRegistry_def validActive_def emptyWorld_def)
  have h2: "0 < length (pinias emptyWorld)"
    and h3: "map_of (p_s (pinias emptyWorld ! 0)) ''a'' = None"
    and h4: "DEV emptyWorld \<longrightarrow> p_e_active (pinias emptyWorld ! 0)"
    and h4': "p_e_active (pinias emptyWorld ! 0)"
    and h5: "length (stores emptyWorld) = 0"
    by (simp_all add: emptyWorld_def)
  have h6: "pending circularDecls ''a'' emptyWorld = 2" by code_simp
  note t = setup_finds_partial_store[OF h1 h2 h3 h4, where n = "Suc (Suc 0)"
      and ds = circularDecls and sc = circularA]
  have a: "map_of (p_s (pinias (partiallyBuilt ''a'' 0 emptyWorld) ! 0)) ''a'' = Some 0"
    using t[THEN conjunct1] h5 by simp
  have "pending circularDecls ''a'' emptyWorld \<le> Suc (Suc 0)" using h6 by simp
  then have "useStore (Suc (Suc (Suc 0))) circularDecls None (''a'', SetupDecl circularA) (Some 0)
               emptyWorld \<noteq> None"
    using t[THEN conjunct2, THEN conjunct2, THEN conjunct2, THEN conjunct2, THEN conjunct2,
            THEN conjunct2, THEN conjunct2] by blast
  then have b: "useStore 3 circularDecls None (''a'', SetupDecl circularA) (Some 0) emptyWorld \<noteq> None"
    by (simp add: numeral_3_eq_3 del: useStore.simps)
  have c: "fst (the (useStore 3 circularDecls None (''a'', SetupDecl circularA) (Some 0) emptyWorld)) =
             Returned (Some 0)"
    by code_simp
  have d: "length (stores (snd (the (useStore 3 circularDecls None (''a'', SetupDecl circularA) (Some 0)
                               emptyWorld)))) = 2"
    by code_simp
  have e: "trace (snd (the (useStore 3 circularDecls None (''a'', SetupDecl circularA) (Some 0)
                      emptyWorld))) =
     [AccessorReturned ''b'' ''a'' (Some 0), AccessorReturned ''b'' ''b'' (Some 1),
      AccessorReturned ''a'' ''b'' (Some 1)]"
    by code_simp
  show ?thesis by (intro conjI h1 h2 h3 h4' h6 a b c d e)
qed

text \<open>
  C6. In a well-formed world, an accessor called with registry \<open>p\<close> returns or throws when
  it has more fuel than there are pairs of a registry and a declared id without a store.
  When it returns, it returns a store that is registered under its id in \<open>p\<close>, a new
  one when the id was not registered; a second call with \<open>p\<close> returns the same store and
  leaves the world as it is, apart from making \<open>p\<close> active; and a call with another
  registry \<open>q\<close> returns or throws, and when it returns, it returns a different store,
  registered under the same id in \<open>q\<close>, while the first store is still the one registered
  in \<open>p\<close>.
\<close>

theorem useStore_idempotent:
  assumes g: "wfWorld injected w" and p: "p < length (pinias w)" and q: "q < length (pinias w)"
    and pq: "p \<noteq> q"
  shows "(pending ds (fst acc) w < n \<longrightarrow> useStore n ds injected acc (Some p) w \<noteq> None) \<and>
         (\<forall>x w1. useStore n ds injected acc (Some p) w = Some (Returned x, w1) \<longrightarrow>
            (\<exists>s. x = Some s \<and> map_of (p_s (pinias w1 ! p)) (fst acc) = Some s \<and>
                 (map_of (p_s (pinias w ! p)) (fst acc) = None \<longrightarrow> s = length (stores w)) \<and>
                 (\<forall>m. useStore (Suc m) ds injected acc (Some p) w1 =
                        Some (Returned (Some s), w1\<lparr>activePinia := Some p\<rparr>)) \<and>
                 (\<forall>m. pending ds (fst acc) w < m \<longrightarrow>
                        useStore m ds injected acc (Some q) w1 \<noteq> None) \<and>
                 (\<forall>m y w2. useStore m ds injected acc (Some q) w1 = Some (Returned y, w2) \<longrightarrow>
                    (\<exists>t. y = Some t \<and> t \<noteq> s \<and>
                         map_of (p_s (pinias w2 ! q)) (fst acc) = Some t \<and>
                         map_of (p_s (pinias w2 ! p)) (fst acc) = Some s \<and>
                         sp (stores w2 ! t) = q \<and> sp (stores w2 ! s) = p \<and>
                         sid (stores w2 ! t) = fst acc \<and> sid (stores w2 ! s) = fst acc))))"
proof -
  have pv: "case Some p of Some p \<Rightarrow> p < length (pinias w) | None \<Rightarrow> True" using p by simp
  have c1: "pending ds (fst acc) w < n \<longrightarrow> useStore n ds injected acc (Some p) w \<noteq> None"
    using useStore_total[OF g pv] by blast
  have c2: "\<forall>x w1. useStore n ds injected acc (Some p) w = Some (Returned x, w1) \<longrightarrow>
            (\<exists>s. x = Some s \<and> map_of (p_s (pinias w1 ! p)) (fst acc) = Some s \<and>
                 (map_of (p_s (pinias w ! p)) (fst acc) = None \<longrightarrow> s = length (stores w)) \<and>
                 (\<forall>m. useStore (Suc m) ds injected acc (Some p) w1 =
                        Some (Returned (Some s), w1\<lparr>activePinia := Some p\<rparr>)) \<and>
                 (\<forall>m. pending ds (fst acc) w < m \<longrightarrow>
                        useStore m ds injected acc (Some q) w1 \<noteq> None) \<and>
                 (\<forall>m y w2. useStore m ds injected acc (Some q) w1 = Some (Returned y, w2) \<longrightarrow>
                    (\<exists>t. y = Some t \<and> t \<noteq> s \<and>
                         map_of (p_s (pinias w2 ! q)) (fst acc) = Some t \<and>
                         map_of (p_s (pinias w2 ! p)) (fst acc) = Some s \<and>
                         sp (stores w2 ! t) = q \<and> sp (stores w2 ! s) = p \<and>
                         sid (stores w2 ! t) = fst acc \<and> sid (stores w2 ! s) = fst acc)))"
  proof (intro allI impI)
    fix x w1 assume first: "useStore n ds injected acc (Some p) w = Some (Returned x, w1)"
    from useStore_sound[OF g pv first]
    obtain s where g1: "wfWorld injected w1" and e1: "extends w w1" and x: "x = Some s"
      and reg: "map_of (p_s (pinias w1 ! p)) (fst acc) = Some s"
      and new: "map_of (p_s (pinias w ! p)) (fst acc) = None \<longrightarrow> s = length (stores w)"
      by (auto simp: resolve_def)
    have l1: "length (pinias w1) = length (pinias w)" using e1 by (simp add: extends_def)
    have qv: "case Some q of Some p \<Rightarrow> p < length (pinias w1) | None \<Rightarrow> True"
      using q l1 by simp
    have again: "\<forall>m. useStore (Suc m) ds injected acc (Some p) w1 =
                        Some (Returned (Some s), w1\<lparr>activePinia := Some p\<rparr>)"
      using useStore_registered[OF reg] by blast
    have fin: "\<forall>m. pending ds (fst acc) w < m \<longrightarrow>
                        useStore m ds injected acc (Some q) w1 \<noteq> None"
    proof (intro allI impI)
      fix m assume "pending ds (fst acc) w < m"
      then have "pending ds (fst acc) w1 < m" using extends_pending[OF e1, of ds "fst acc"] by simp
      then show "useStore m ds injected acc (Some q) w1 \<noteq> None"
        using useStore_total[OF g1 qv] by blast
    qed
    have other: "\<forall>m y w2. useStore m ds injected acc (Some q) w1 = Some (Returned y, w2) \<longrightarrow>
                    (\<exists>t. y = Some t \<and> t \<noteq> s \<and>
                         map_of (p_s (pinias w2 ! q)) (fst acc) = Some t \<and>
                         map_of (p_s (pinias w2 ! p)) (fst acc) = Some s \<and>
                         sp (stores w2 ! t) = q \<and> sp (stores w2 ! s) = p \<and>
                         sid (stores w2 ! t) = fst acc \<and> sid (stores w2 ! s) = fst acc)"
    proof (intro allI impI)
      fix m y w2 assume second: "useStore m ds injected acc (Some q) w1 = Some (Returned y, w2)"
      from useStore_sound[OF g1 qv second]
      obtain t where g2: "wfWorld injected w2" and e2: "extends w1 w2" and y: "y = Some t"
        and regq: "map_of (p_s (pinias w2 ! q)) (fst acc) = Some t"
        by (auto simp: resolve_def)
      have l2: "length (pinias w2) = length (pinias w)" using e2 l1 by (simp add: extends_def)
      have regp: "map_of (p_s (pinias w2 ! p)) (fst acc) = Some s"
        using e2 reg p l1 by (simp add: extends_def)
      have wf: "wfRegistry w2" using g2 by (simp add: wfWorld_def)
      have tq: "sp (stores w2 ! t) = q \<and> sid (stores w2 ! t) = fst acc"
        using wf regq q l2 unfolding wfRegistry_def by metis
      have sp': "sp (stores w2 ! s) = p \<and> sid (stores w2 ! s) = fst acc"
        using wf regp p l2 unfolding wfRegistry_def by metis
      have "t \<noteq> s" using tq sp' pq by auto
      then show "\<exists>t. y = Some t \<and> t \<noteq> s \<and>
                         map_of (p_s (pinias w2 ! q)) (fst acc) = Some t \<and>
                         map_of (p_s (pinias w2 ! p)) (fst acc) = Some s \<and>
                         sp (stores w2 ! t) = q \<and> sp (stores w2 ! s) = p \<and>
                         sid (stores w2 ! t) = fst acc \<and> sid (stores w2 ! s) = fst acc"
        using y regq regp tq sp' by blast
    qed
    show "\<exists>s. x = Some s \<and> map_of (p_s (pinias w1 ! p)) (fst acc) = Some s \<and>
                 (map_of (p_s (pinias w ! p)) (fst acc) = None \<longrightarrow> s = length (stores w)) \<and>
                 (\<forall>m. useStore (Suc m) ds injected acc (Some p) w1 =
                        Some (Returned (Some s), w1\<lparr>activePinia := Some p\<rparr>)) \<and>
                 (\<forall>m. pending ds (fst acc) w < m \<longrightarrow>
                        useStore m ds injected acc (Some q) w1 \<noteq> None) \<and>
                 (\<forall>m y w2. useStore m ds injected acc (Some q) w1 = Some (Returned y, w2) \<longrightarrow>
                    (\<exists>t. y = Some t \<and> t \<noteq> s \<and>
                         map_of (p_s (pinias w2 ! q)) (fst acc) = Some t \<and>
                         map_of (p_s (pinias w2 ! p)) (fst acc) = Some s \<and>
                         sp (stores w2 ! t) = q \<and> sp (stores w2 ! s) = p \<and>
                         sid (stores w2 ! t) = fst acc \<and> sid (stores w2 ! s) = fst acc))"
      by (rule exI[of _ s], rule conjI[OF x conjI[OF reg conjI[OF new conjI[OF again conjI[OF fin other]]]]])
  qed
  show ?thesis by (rule conjI[OF c1 c2])
qed

theorem useStore_idempotent_witness:
  "wfWorld None twoRegistries \<and> 0 < length (pinias twoRegistries) \<and>
   1 < length (pinias twoRegistries) \<and> pending [] ''store'' twoRegistries = 2 \<and>
   useStore 3 [] None (''store'', counterDecl) (Some 0) twoRegistries \<noteq> None \<and>
   fst (the (useStore 3 [] None (''store'', counterDecl) (Some 0) twoRegistries)) =
     Returned (Some 0) \<and>
   useStore 3 [] None (''store'', counterDecl) (Some 0) builtInFirst =
     Some (Returned (Some 0), builtInFirst\<lparr>activePinia := Some 0\<rparr>) \<and>
   useStore 3 [] None (''store'', counterDecl) (Some 1) builtInFirst \<noteq> None \<and>
   fst (the (useStore 3 [] None (''store'', counterDecl) (Some 1) builtInFirst)) =
     Returned (Some 1)"
proof -
  let ?three = "Suc (Suc (Suc 0))"
  have h1: "wfWorld None twoRegistries"
    by (auto simp: wfWorld_def wfRegistry_def validActive_def twoRegistries_def emptyWorld_def
        less_Suc_eq)
  have h2: "0 < length (pinias twoRegistries)" and h3: "1 < length (pinias twoRegistries)"
    by (simp_all add: twoRegistries_def)
  have h0: "(0::nat) \<noteq> 1" by simp
  have h6: "pending [] ''store'' twoRegistries = 2" by code_simp
  note t = useStore_idempotent[OF h1 h2 h3 h0, where ds = "[]"
      and acc = "(''store'', counterDecl)" and n = ?three]
  have pend: "pending [] (fst (''store'', counterDecl)) twoRegistries < ?three"
    using h6 by simp
  have b': "useStore ?three [] None (''store'', counterDecl) (Some 0) twoRegistries \<noteq> None"
    using t[THEN conjunct1] pend by blast
  then have b: "useStore 3 [] None (''store'', counterDecl) (Some 0) twoRegistries \<noteq> None"
    by (simp add: numeral_3_eq_3 del: useStore.simps)
  have c: "fst (the (useStore 3 [] None (''store'', counterDecl) (Some 0) twoRegistries)) =
             Returned (Some 0)"
    by code_simp
  obtain w1 where first3: "useStore 3 [] None (''store'', counterDecl) (Some 0) twoRegistries =
                            Some (Returned (Some 0), w1)"
    using b c by (cases "useStore 3 [] None (''store'', counterDecl) (Some 0) twoRegistries") auto
  have w1: "builtInFirst = w1" by (simp add: builtInFirst_def first3)
  have first: "useStore ?three [] None (''store'', counterDecl) (Some 0) twoRegistries =
                 Some (Returned (Some 0), builtInFirst)"
    using first3 w1 by (simp add: numeral_3_eq_3 del: useStore.simps)
  from t[THEN conjunct2, rule_format, OF first]
  obtain s where s: "Some 0 = Some s"
    and again: "\<forall>m. useStore (Suc m) [] None (''store'', counterDecl) (Some 0) builtInFirst =
                  Some (Returned (Some s), builtInFirst\<lparr>activePinia := Some 0\<rparr>)"
    and fin: "\<forall>m. pending [] (fst (''store'', counterDecl)) twoRegistries < m \<longrightarrow>
                useStore m [] None (''store'', counterDecl) (Some 1) builtInFirst \<noteq> None"
    by blast
  have "useStore ?three [] None (''store'', counterDecl) (Some 0) builtInFirst =
          Some (Returned (Some 0), builtInFirst\<lparr>activePinia := Some 0\<rparr>)"
    using again[rule_format, of "Suc (Suc 0)"] s by (simp del: useStore.simps)
  then have d: "useStore 3 [] None (''store'', counterDecl) (Some 0) builtInFirst =
                  Some (Returned (Some 0), builtInFirst\<lparr>activePinia := Some 0\<rparr>)"
    by (simp add: numeral_3_eq_3 del: useStore.simps)
  have "useStore ?three [] None (''store'', counterDecl) (Some 1) builtInFirst \<noteq> None"
    using fin[rule_format, OF pend] .
  then have e: "useStore 3 [] None (''store'', counterDecl) (Some 1) builtInFirst \<noteq> None"
    by (simp add: numeral_3_eq_3 del: useStore.simps)
  have f: "fst (the (useStore 3 [] None (''store'', counterDecl) (Some 1) builtInFirst)) =
             Returned (Some 1)"
    by code_simp
  show ?thesis by (intro conjI h1 h2 h3 h6 b c d e f)
qed

end
